theory Spec2Isabelle
  imports Main "HOL-Library.Multiset" "HOL-Library.Product_Lexorder" "HOL-Library.Sublist"
begin

section \<open>The transaction propagator of \<open>txn_propagator.cpp\<close>\<close>

subsection \<open>Data model\<close>

text \<open>
  A transaction identity is a \<open>uint256\<close> hash. The propagator only compares identities
  for equality and for order, so they are modelled as natural numbers.
\<close>

type_synonym uint256 = nat

text \<open>
  \<open>CTransactionRef\<close>: the propagator reads \<open>txn->GetId()\<close> only; \<open>body\<close> stands for
  everything else the referenced transaction holds.
\<close>

datatype CTransaction = CTransaction (GetId: uint256) (body: nat)

datatype CInv = CInv (inv_type: nat) (hash: uint256)

definition MSG_TX :: nat where
  "MSG_TX = 1"

text \<open>The sending descriptor: an inventory item and the transaction it announces.\<close>

datatype CTxnSendingDetails = CTxnSendingDetails (getInv: CInv) (getTxnRef: CTransaction)

definition ident :: "CTxnSendingDetails \<Rightarrow> uint256" where
  "ident d = hash (getInv d)"

text \<open>
  The pool, as far as the propagator reads it: the position the pool currently assigns
  to a transaction identity. It is read only while \<open>mempool.cs\<close> is held.
\<close>

type_synonym CTxMemPool = "uint256 \<Rightarrow> nat"

text \<open>
  Modelled from the spec: the class \<open>CompareTxnSendingDetails\<close> is declared in
  \<open>txn_sending_details.h\<close>, which is not among the sources. The spec describes it as a
  total order over descriptors derived from the pool's current view (a key assigned by
  the pool), ties broken by transaction identity.
\<close>

definition CompareTxnSendingDetails ::
  "CTxMemPool \<Rightarrow> CTxnSendingDetails \<Rightarrow> CTxnSendingDetails \<Rightarrow> bool" where
  "CompareTxnSendingDetails pool a b =
     (pool (ident a) < pool (ident b) \<or>
      (pool (ident a) = pool (ident b) \<and> ident a < ident b))"

text \<open>
  A pool given as a table of positions, for concrete inputs; an identity that is not in
  the table has position 0.
\<close>

definition pool_of :: "(uint256 \<times> nat) list \<Rightarrow> CTxMemPool" where
  "pool_of table txid = (case map_of table txid of Some position \<Rightarrow> position | None \<Rightarrow> 0)"

definition policy_key :: "CTxMemPool \<Rightarrow> CTxnSendingDetails \<Rightarrow> nat \<times> nat" where
  "policy_key pool d = (pool (ident d), ident d)"

subsection \<open>The two standard algorithms used by \<open>removeTransactions\<close>\<close>

text \<open>
  \<open>std::sort(first, last, cmp)\<close>: the result is a permutation of the input in which no
  element is \<open>cmp\<close>-less than an earlier one. The order of equivalent elements is left
  open by the standard; the model is insertion sort, and the theorems below that speak of
  the exact result assume descriptors with pairwise different identities, where the
  sorted permutation is unique.
\<close>

fun insert_sorted :: "('a \<Rightarrow> 'a \<Rightarrow> bool) \<Rightarrow> 'a \<Rightarrow> 'a list \<Rightarrow> 'a list" where
  "insert_sorted cmp x [] = [x]"
| "insert_sorted cmp x (y # ys) =
     (if cmp y x then y # insert_sorted cmp x ys else x # y # ys)"

fun std_sort :: "('a \<Rightarrow> 'a \<Rightarrow> bool) \<Rightarrow> 'a list \<Rightarrow> 'a list" where
  "std_sort cmp [] = []"
| "std_sort cmp (x # xs) = insert_sorted cmp x (std_sort cmp xs)"

text \<open>
  \<open>std::set_difference(first1, last1, first2, last2, out, cmp)\<close>, as the standard
  specifies it: walk both sorted ranges; copy an element of the first range that is less
  than the head of the second; drop one element of each range when neither is less than
  the other; otherwise advance the second range. The output iterator
  \<open>std::inserter(filteredNewTxns, filteredNewTxns.begin())\<close> keeps the order of writing.
\<close>

fun set_difference :: "('a \<Rightarrow> 'a \<Rightarrow> bool) \<Rightarrow> 'a list \<Rightarrow> 'a list \<Rightarrow> 'a list" where
  "set_difference cmp [] ys = []"
| "set_difference cmp (x # xs) [] = x # xs"
| "set_difference cmp (x # xs) (y # ys) =
     (if cmp x y then x # set_difference cmp xs (y # ys)
      else if \<not> cmp y x then set_difference cmp xs ys
      else set_difference cmp (x # xs) ys)"

subsection \<open>Engine state, events and collaborators\<close>

datatype Lock = NewTxnsMtx | MempoolCs

datatype LogLine =
    Purging nat
  | ThreadStarting
  | GotNewTxns nat
  | ThreadStopping
  | UnexpectedException

type_synonym NodeId = nat

text \<open>
  What the engine does beyond changing its own fields is recorded in a trace: lock
  acquisitions and releases, condition-variable operations, log lines, the thread join,
  and the calls into the connection manager and the peers.
\<close>

datatype Event =
    Acquire Lock
  | Release Lock
  | NotifyOne
  | WaitFor int
  | Join
  | Log LogLine
  | FanOutAdd "CTxnSendingDetails list"
  | AddTxnsToInventory NodeId "CTxnSendingDetails list"
  | FanOutRemove "CTxnSendingDetails list"
  | RemoveTxnsFromInventory NodeId "CTxnSendingDetails list"

record CTxnPropagator =
  mRunFrequency :: int
  mNewTxns :: "CTxnSendingDetails list"
  mRunning :: bool
  trace :: "Event list"

definition emit :: "Event list \<Rightarrow> CTxnPropagator \<Rightarrow> CTxnPropagator" where
  "emit es s = s\<lparr>trace := trace s @ es\<rparr>"

datatype exception = Exception string

text \<open>
  \<open>g_connman->ParallelForEachNode\<close> is declared in \<open>net.h\<close>, which is not among the
  sources, so what a call of it does is a parameter: either it raises, or it runs the
  given operation on every node of its snapshot of connected peers and returns one
  completion handle per node (\<open>result.wait()\<close> then waits and does not rethrow).
\<close>

type_synonym FanOut = "exception + NodeId list"

datatype Outcome = Done CTxnPropagator | Threw exception CTxnPropagator

fun state_of :: "Outcome \<Rightarrow> CTxnPropagator" where
  "state_of (Done s) = s"
| "state_of (Threw e s) = s"

fun threw :: "Outcome \<Rightarrow> bool" where
  "threw (Done s) = False"
| "threw (Threw e s) = True"

subsection \<open>The operations\<close>

text \<open>
  The constructor: the run frequency comes from the configuration (\<open>gArgs.GetArg\<close>, with
  default \<open>DEFAULT_RUN_FREQUENCY_MILLIS\<close>), the queue is empty and the running flag is
  set. The thread it launches is \<open>threadNewTxnHandler\<close> below.
\<close>

definition construct :: "int \<Rightarrow> CTxnPropagator" where
  "construct runFreq =
     \<lparr>mRunFrequency = runFreq, mNewTxns = [], mRunning = True, trace = []\<rparr>"

definition getRunFrequency :: "CTxnPropagator \<Rightarrow> int \<times> CTxnPropagator" where
  "getRunFrequency s =
     (mRunFrequency s, emit [Acquire NewTxnsMtx, Release NewTxnsMtx] s)"

definition setRunFrequency :: "int \<Rightarrow> CTxnPropagator \<Rightarrow> CTxnPropagator" where
  "setRunFrequency freq s =
     emit [NotifyOne, Release NewTxnsMtx]
       ((emit [Acquire NewTxnsMtx] s)\<lparr>mRunFrequency := freq\<rparr>)"

definition getNewTxnQueueLength :: "CTxnPropagator \<Rightarrow> nat \<times> CTxnPropagator" where
  "getNewTxnQueueLength s =
     (length (mNewTxns s), emit [Acquire NewTxnsMtx, Release NewTxnsMtx] s)"

definition newTransaction :: "CTxnSendingDetails \<Rightarrow> CTxnPropagator \<Rightarrow> CTxnPropagator" where
  "newTransaction txn s =
     emit [Release NewTxnsMtx]
       ((emit [Acquire NewTxnsMtx] s)\<lparr>mNewTxns := mNewTxns s @ [txn]\<rparr>)"

definition details_of :: "CTransaction \<Rightarrow> CTxnSendingDetails" where
  "details_of txn = CTxnSendingDetails (CInv MSG_TX (GetId txn)) txn"

text \<open>
  \<open>removeTransactions\<close>. The comparator reads the pool each time it is evaluated, and the
  pool lock is released between the sort of the removal list and the sort of the queue,
  so the pool's view at the first acquisition (\<open>pool1\<close>) and at the second (\<open>pool2\<close>) are
  separate parameters. An exception of the fan-out leaves through the caller; the queue
  has been replaced by then.
\<close>

definition removeTransactions ::
  "CTxMemPool \<Rightarrow> CTxMemPool \<Rightarrow> FanOut \<Rightarrow> CTransaction list \<Rightarrow> CTxnPropagator \<Rightarrow> Outcome" where
  "removeTransactions pool1 pool2 conn txns s =
     (let s1 = emit [Log (Purging (length txns))] s;
          txnDetails = std_sort (CompareTxnSendingDetails pool1) (map details_of txns);
          s2 = emit [Acquire MempoolCs, Release MempoolCs] s1;
          s3 = emit [Acquire NewTxnsMtx, Acquire MempoolCs] s2;
          sortedNewTxns = std_sort (CompareTxnSendingDetails pool2) (mNewTxns s3);
          filteredNewTxns =
            set_difference (CompareTxnSendingDetails pool2) sortedNewTxns txnDetails;
          s4 = emit [Release MempoolCs, Release NewTxnsMtx] (s3\<lparr>mNewTxns := filteredNewTxns\<rparr>);
          s5 = emit [Acquire MempoolCs, FanOutRemove txnDetails] s4
      in case conn of
           Inl e \<Rightarrow> Threw e (emit [Release MempoolCs] s5)
         | Inr nodes \<Rightarrow>
             Done (emit (map (\<lambda>node. RemoveTxnsFromInventory node txnDetails) nodes
                         @ [Release MempoolCs]) s5))"

text \<open>\<open>processNewTransactions\<close>; the caller holds \<open>mNewTxnsMtx\<close>.\<close>

definition processNewTransactions :: "FanOut \<Rightarrow> CTxnPropagator \<Rightarrow> Outcome" where
  "processNewTransactions conn s =
     (let s1 = emit [Acquire MempoolCs, FanOutAdd (mNewTxns s)] s
      in case conn of
           Inl e \<Rightarrow> Threw e (emit [Release MempoolCs] s1)
         | Inr nodes \<Rightarrow>
             Done ((emit (map (\<lambda>node. AddTxnsToInventory node (mNewTxns s)) nodes
                          @ [Release MempoolCs]) s1)\<lparr>mNewTxns := []\<rparr>))"

text \<open>
  \<open>shutdown\<close>. \<open>compare_exchange_strong(expected, false)\<close> with \<open>expected = true\<close>
  succeeds exactly when the flag is set, and clears it. \<open>shutdown_signal\<close> is the part
  before \<open>mNewTxnsThread.join()\<close>.
\<close>

definition shutdown_signal :: "CTxnPropagator \<Rightarrow> CTxnPropagator" where
  "shutdown_signal s =
     (if mRunning s
      then emit [Acquire NewTxnsMtx, NotifyOne, Release NewTxnsMtx] (s\<lparr>mRunning := False\<rparr>)
      else s)"

definition shutdown :: "CTxnPropagator \<Rightarrow> CTxnPropagator" where
  "shutdown s = (if mRunning s then emit [Join] (shutdown_signal s) else s)"

subsection \<open>The background thread\<close>

text \<open>
  What other threads may do to the engine while the background thread does not hold
  \<open>mNewTxnsMtx\<close>: the public operations. A \<open>Shutdown\<close> of another thread acts up to its
  \<open>join()\<close>, where that thread stays blocked until the background thread has returned.
\<close>

datatype Call =
    Submit CTxnSendingDetails
  | Retract CTxMemPool CTxMemPool FanOut "CTransaction list"
  | SetRunFrequency int
  | Shutdown

fun interfere :: "CTxnPropagator \<Rightarrow> Call \<Rightarrow> CTxnPropagator" where
  "interfere s (Submit txn) = newTransaction txn s"
| "interfere s (Retract pool1 pool2 conn txns) =
     state_of (removeTransactions pool1 pool2 conn txns s)"
| "interfere s (SetRunFrequency freq) = setRunFrequency freq s"
| "interfere s Shutdown = shutdown_signal s"

text \<open>
  One pass of the loop sees: the calls of other threads while it is blocked in
  \<open>wait_for\<close> (which releases the mutex and takes it again on wake-up, by timeout or by
  signal), what the fan-out does if this pass dispatches, and the calls of other threads
  between the end of the pass and the next test of \<open>mRunning\<close>. A call that lands
  between that test and the acquisition of the mutex needs no window of its own: the test
  reads only the flag and only \<open>shutdown\<close> writes it, so such a call has the effect of
  the same call before the test, and a \<open>shutdown\<close> there the effect of one during the
  wait.
\<close>

record Wake =
  during_wait :: "Call list"
  fanout :: FanOut
  after_pass :: "Call list"

text \<open>
  \<open>mNewTxnsCV.wait_for(lock, mRunFrequency)\<close>: the mutex is released, the thread is
  blocked while other threads make their calls, and the mutex is taken again.
\<close>

definition wait_for :: "Call list \<Rightarrow> CTxnPropagator \<Rightarrow> CTxnPropagator" where
  "wait_for calls s =
     emit [Acquire NewTxnsMtx]
       (foldl interfere (emit [Release NewTxnsMtx, WaitFor (mRunFrequency s)] s) calls)"

text \<open>Whether a call of another thread is a \<open>setRunFrequency\<close>.\<close>

fun sets_frequency :: "Call \<Rightarrow> bool" where
  "sets_frequency (SetRunFrequency freq) = True"
| "sets_frequency c = False"

text \<open>The run frequency after a call of another thread, given the one before.\<close>

fun freq_after :: "int \<Rightarrow> Call \<Rightarrow> int" where
  "freq_after f (SetRunFrequency g) = g"
| "freq_after f c = f"

text \<open>The body of the \<open>while\<close> loop of \<open>threadNewTxnHandler\<close>.\<close>

definition handler_pass :: "Wake \<Rightarrow> CTxnPropagator \<Rightarrow> Outcome" where
  "handler_pass w s =
     (let s1 = emit [Acquire NewTxnsMtx] s;
          s2 = wait_for (during_wait w) s1
      in if mRunning s2 \<and> mNewTxns s2 \<noteq> []
         then (case processNewTransactions (fanout w)
                      (emit [Log (GotNewTxns (length (mNewTxns s2)))] s2) of
                 Done s3 \<Rightarrow> Done (emit [Release NewTxnsMtx] s3)
               | Threw e s3 \<Rightarrow> Threw e (emit [Release NewTxnsMtx] s3))
         else Done (emit [Release NewTxnsMtx] s2))"

text \<open>The engine as a pass finds it when \<open>wait_for\<close> has returned, at the test of line 134.\<close>

definition at_wake :: "Wake \<Rightarrow> CTxnPropagator \<Rightarrow> CTxnPropagator" where
  "at_wake w s = wait_for (during_wait w) (emit [Acquire NewTxnsMtx] s)"

text \<open>
  The thread runs until the flag is cleared, so the loop is driven by the list of
  wake-ups it is given; when the list is used up and the flag is still set, the thread
  is still in its loop.
\<close>

datatype ThreadOutcome =
    Returned CTxnPropagator
  | Raised exception CTxnPropagator
  | StillLooping CTxnPropagator

fun thread_state :: "ThreadOutcome \<Rightarrow> CTxnPropagator" where
  "thread_state (Returned s) = s"
| "thread_state (Raised e s) = s"
| "thread_state (StillLooping s) = s"

fun handler_loop :: "Wake list \<Rightarrow> CTxnPropagator \<Rightarrow> ThreadOutcome" where
  "handler_loop [] s = (if mRunning s then StillLooping s else Returned s)"
| "handler_loop (w # ws) s =
     (if mRunning s
      then (case handler_pass w s of
              Done s' \<Rightarrow> handler_loop ws (foldl interfere s' (after_pass w))
            | Threw e s' \<Rightarrow> Raised e s')
      else Returned s)"

text \<open>\<open>threadNewTxnHandler\<close>: the loop inside \<open>try\<close>, and the \<open>catch(...)\<close> around it.\<close>

definition threadNewTxnHandler :: "Wake list \<Rightarrow> CTxnPropagator \<Rightarrow> ThreadOutcome" where
  "threadNewTxnHandler ws s =
     (case handler_loop ws (emit [Log ThreadStarting] s) of
        Returned s' \<Rightarrow> Returned (emit [Log ThreadStopping] s')
      | Raised e s' \<Rightarrow> Returned (emit [Log UnexpectedException] s')
      | StillLooping s' \<Rightarrow> StillLooping s')"

subsection \<open>Several threads in \<open>shutdown\<close>\<close>

text \<open>
  Each call of \<open>shutdown\<close> is at one of four places: before the compare-and-swap, before
  the notification, before \<open>join()\<close>, or returned (remembering whether it ran the stop
  sequence). A scheduler picks which call, or the background thread, moves next. The
  background thread is reduced to what \<open>join()\<close> depends on: it returns when it finds
  the flag cleared at its loop test, or when a pass raised.
\<close>

datatype Pc = AtCompareExchange | AtNotify | AtJoin | AtEnd bool

record System =
  engine :: CTxnPropagator
  callers :: "Pc list"
  handlerExited :: bool

datatype Actor = Caller nat | HandlerTest | HandlerRaise

fun caller_step :: "nat \<Rightarrow> Pc \<Rightarrow> System \<Rightarrow> System" where
  "caller_step i AtCompareExchange \<sigma> =
     (if mRunning (engine \<sigma>)
      then \<sigma>\<lparr>engine := (engine \<sigma>)\<lparr>mRunning := False\<rparr>, callers := (callers \<sigma>)[i := AtNotify]\<rparr>
      else \<sigma>\<lparr>callers := (callers \<sigma>)[i := AtEnd False]\<rparr>)"
| "caller_step i AtNotify \<sigma> =
     \<sigma>\<lparr>engine := emit [Acquire NewTxnsMtx, NotifyOne, Release NewTxnsMtx] (engine \<sigma>),
       callers := (callers \<sigma>)[i := AtJoin]\<rparr>"
| "caller_step i AtJoin \<sigma> =
     (if handlerExited \<sigma>
      then \<sigma>\<lparr>engine := emit [Join] (engine \<sigma>), callers := (callers \<sigma>)[i := AtEnd True]\<rparr>
      else \<sigma>)"
| "caller_step i (AtEnd b) \<sigma> = \<sigma>"

fun step :: "System \<Rightarrow> Actor \<Rightarrow> System" where
  "step \<sigma> (Caller i) =
     (if i < length (callers \<sigma>) then caller_step i (callers \<sigma> ! i) \<sigma> else \<sigma>)"
| "step \<sigma> HandlerTest =
     (if mRunning (engine \<sigma>) then \<sigma> else \<sigma>\<lparr>handlerExited := True\<rparr>)"
| "step \<sigma> HandlerRaise = \<sigma>\<lparr>handlerExited := True\<rparr>"

definition run :: "Actor list \<Rightarrow> System \<Rightarrow> System" where
  "run sched \<sigma> = foldl step \<sigma> sched"

definition start :: "nat \<Rightarrow> int \<Rightarrow> System" where
  "start n runFreq =
     \<lparr>engine = construct runFreq, callers = replicate n AtCompareExchange,
      handlerExited = False\<rparr>"

text \<open>The calls whose compare-and-swap succeeded: they run the stop sequence.\<close>

fun won :: "Pc \<Rightarrow> bool" where
  "won AtCompareExchange = False"
| "won AtNotify = True"
| "won AtJoin = True"
| "won (AtEnd b) = b"

fun notified :: "Pc \<Rightarrow> bool" where
  "notified AtJoin = True"
| "notified (AtEnd b) = b"
| "notified pc = False"

fun returned :: "Pc \<Rightarrow> bool" where
  "returned (AtEnd b) = True"
| "returned pc = False"

text \<open>
  What holds of the calls in every reachable state of \<open>n\<close> callers: while the flag is set
  no call has passed its compare-and-swap; once it is cleared exactly one call has won
  it; the notifications and joins in the trace are those of the calls that got that far;
  and a call that ran the stop sequence has returned only if the thread has.
\<close>

definition shutdown_inv :: "nat \<Rightarrow> System \<Rightarrow> bool" where
  "shutdown_inv n \<sigma> =
     (length (callers \<sigma>) = n
      \<and> (mRunning (engine \<sigma>) \<longrightarrow> (\<forall>p \<in> set (callers \<sigma>). p = AtCompareExchange))
      \<and> (\<not> mRunning (engine \<sigma>) \<longrightarrow> length (filter won (callers \<sigma>)) = 1)
      \<and> count_list (trace (engine \<sigma>)) NotifyOne = length (filter notified (callers \<sigma>))
      \<and> count_list (trace (engine \<sigma>)) Join = length (filter (\<lambda>p. p = AtEnd True) (callers \<sigma>))
      \<and> (AtEnd True \<in> set (callers \<sigma>) \<longrightarrow> handlerExited \<sigma>))"

subsection \<open>The lock discipline, read off a trace\<close>

text \<open>
  The events an operation added to the trace, and the check of a sequence of events
  against the locks held before it: \<open>mNewTxnsMtx\<close> is never acquired while \<open>mempool.cs\<close>
  is held, so whenever both are held the queue's lock was taken first.
\<close>

definition new_events :: "CTxnPropagator \<Rightarrow> CTxnPropagator \<Rightarrow> Event list" where
  "new_events s s' = drop (length (trace s)) (trace s')"

fun lock_order :: "Lock list \<Rightarrow> Event list \<Rightarrow> bool" where
  "lock_order held [] = True"
| "lock_order held (Acquire NewTxnsMtx # es) =
     (MempoolCs \<notin> set held \<and> lock_order (NewTxnsMtx # held) es)"
| "lock_order held (Acquire MempoolCs # es) = lock_order (MempoolCs # held) es"
| "lock_order held (Release l # es) = lock_order (remove1 l held) es"
| "lock_order held (e # es) = lock_order held es"

fun held_after :: "Lock list \<Rightarrow> Event list \<Rightarrow> Lock list" where
  "held_after held [] = held"
| "held_after held (Acquire l # es) = held_after (l # held) es"
| "held_after held (Release l # es) = held_after (remove1 l held) es"
| "held_after held (e # es) = held_after held es"

text \<open>
  A trace \<open>t'\<close> continues \<open>t\<close> with events that keep the lock order when started with the
  locks \<open>held\<close>, and that leave the locks \<open>held'\<close>.
\<close>

definition keeps_order :: "Lock list \<Rightarrow> Event list \<Rightarrow> Event list \<Rightarrow> Lock list \<Rightarrow> bool" where
  "keeps_order held t t' held' =
     (prefix t t' \<and> lock_order held (drop (length t) t')
      \<and> held_after held (drop (length t) t') = held')"

subsection \<open>Sequences of queue operations\<close>

text \<open>
  The operations that touch the pending queue: the public calls, and the dispatch cycle
  that the background thread runs. The queue keeps what an operation did to it also when
  the fan-out of that operation raised.
\<close>

datatype QueueOp = ByCaller Call | DispatchCycle FanOut

fun apply_op :: "CTxnPropagator \<Rightarrow> QueueOp \<Rightarrow> CTxnPropagator" where
  "apply_op s (ByCaller c) = interfere s c"
| "apply_op s (DispatchCycle conn) = state_of (processNewTransactions conn s)"

definition no_duplicates :: "CTxnPropagator \<Rightarrow> bool" where
  "no_duplicates s = distinct (map ident (mNewTxns s))"

text \<open>Every \<open>Submit\<close> of the sequence names an identity that is not pending when it runs.\<close>

fun fresh_submits :: "CTxnPropagator \<Rightarrow> QueueOp list \<Rightarrow> bool" where
  "fresh_submits s [] = True"
| "fresh_submits s (ByCaller (Submit txn) # ops) =
     (ident txn \<notin> set (map ident (mNewTxns s))
      \<and> fresh_submits (apply_op s (ByCaller (Submit txn))) ops)"
| "fresh_submits s (op # ops) = fresh_submits (apply_op s op) ops"

section \<open>Properties of the two algorithms\<close>

text \<open>
  Under a comparator that compares a key into a linear order, the insertion sort is the
  library's \<open>sort_key\<close>; the comparator of the pool is of that kind, with the pair of
  pool position and identity as the key.
\<close>

lemma insert_sorted_key:
  assumes "\<And>a b. cmp a b = (k a < k b)"
  shows "insert_sorted cmp x xs = insort_key k x xs"
  by (induction xs) (auto simp: assms)

lemma std_sort_key:
  assumes "\<And>a b. cmp a b = (k a < k b)"
  shows "std_sort cmp xs = sort_key k xs"
  by (induction xs) (simp_all add: insert_sorted_key[OF assms])

lemma mset_insert_sorted: "mset (insert_sorted cmp x xs) = add_mset x (mset xs)"
  by (induction xs) auto

lemma mset_std_sort: "mset (std_sort cmp xs) = mset xs"
  by (induction xs) (auto simp: mset_insert_sorted)

lemma set_std_sort: "set (std_sort cmp xs) = set xs"
  by (metis mset_std_sort set_mset_mset)

lemma set_difference_subset: "set (set_difference cmp xs ys) \<subseteq> set xs"
  by (induction cmp xs ys rule: set_difference.induct) auto

lemma set_difference_distinct:
  "distinct (map f xs) \<Longrightarrow> distinct (map f (set_difference cmp xs ys))"
proof (induction cmp xs ys rule: set_difference.induct)
  case (3 cmp x xs y ys)
  have "f x \<notin> f ` set (set_difference cmp xs (y # ys))"
    using "3.prems" set_difference_subset[of cmp xs "y # ys"] by auto
  with 3 show ?case by auto
qed simp_all

lemma set_difference_sorted_wrt:
  "sorted_wrt R xs \<Longrightarrow> sorted_wrt R (set_difference cmp xs ys)"
proof (induction cmp xs ys rule: set_difference.induct)
  case (3 cmp x xs y ys)
  have "\<forall>z \<in> set (set_difference cmp xs (y # ys)). R x z"
    using "3.prems" set_difference_subset[of cmp xs "y # ys"] by auto
  with 3 show ?case by auto
qed simp_all

lemma set_difference_filter:
  "(\<And>a b. cmp a b = (k a < k b)) \<Longrightarrow> sorted (map k xs) \<Longrightarrow> distinct (map k xs) \<Longrightarrow>
     sorted (map k ys) \<Longrightarrow>
     set_difference cmp xs ys = filter (\<lambda>x. k x \<notin> k ` set ys) xs"
proof (induction cmp xs ys rule: set_difference.induct)
  case (1 cmp ys)
  then show ?case by simp
next
  case (2 cmp x xs)
  then show ?case by simp
next
  case (3 cmp x xs y ys)
  have key: "\<And>a b. cmp a b = (k a < k b)" by (rule "3.prems"(1))
  have above_x: "\<forall>z \<in> set xs. k x < k z"
    using "3.prems"(2,3) by (auto simp: order_le_less)
  have above_y: "\<forall>z \<in> set ys. k y \<le> k z"
    using "3.prems"(4) by auto
  have sx: "sorted (map k xs)" and dx: "distinct (map k xs)" and sy: "sorted (map k ys)"
    using "3.prems" by auto
  consider (lt) "k x < k y" | (eq) "k x = k y" | (gt) "k y < k x"
    by (rule linorder_cases)
  then show ?case
  proof cases
    case lt
    have c: "cmp x y" using lt key by simp
    have "set_difference cmp xs (y # ys) = filter (\<lambda>x. k x \<notin> k ` set (y # ys)) xs"
      by (rule "3.IH"(1)[OF c key sx dx "3.prems"(4)])
    moreover have "k x \<notin> k ` set (y # ys)"
      using lt above_y by force
    ultimately show ?thesis using c by simp
  next
    case eq
    have c: "\<not> cmp x y" "\<not> cmp y x" using eq key by simp_all
    have "set_difference cmp xs ys = filter (\<lambda>x. k x \<notin> k ` set ys) xs"
      by (rule "3.IH"(2)[OF c key sx dx sy])
    moreover have "filter (\<lambda>x. k x \<notin> k ` set (y # ys)) xs = filter (\<lambda>x. k x \<notin> k ` set ys) xs"
      using above_x eq by (intro filter_cong) auto
    ultimately show ?thesis using c eq by simp
  next
    case gt
    have c: "\<not> cmp x y" "\<not> \<not> cmp y x" using gt key by simp_all
    have "set_difference cmp (x # xs) ys = filter (\<lambda>x. k x \<notin> k ` set ys) (x # xs)"
      by (rule "3.IH"(3)[OF c key "3.prems"(2,3) sy])
    moreover have "filter (\<lambda>x. k x \<notin> k ` set (y # ys)) (x # xs)
        = filter (\<lambda>x. k x \<notin> k ` set ys) (x # xs)"
      using above_x gt by (intro filter_cong) auto
    ultimately show ?thesis using c by simp
  qed
qed

lemma cmp_key: "CompareTxnSendingDetails pool a b = (policy_key pool a < policy_key pool b)"
  by (auto simp: CompareTxnSendingDetails_def policy_key_def)


lemma key_distinct: "distinct (map (policy_key pool) xs) = distinct (map ident xs)"
proof -
  have "map ident xs = map snd (map (policy_key pool) xs)"
    by (simp add: policy_key_def)
  moreover have "map (policy_key pool) xs = map (\<lambda>i. (pool i, i)) (map ident xs)"
    by (simp add: policy_key_def)
  ultimately show ?thesis
    by (metis distinct_map inj_onI prod.inject distinct_map)
qed

lemma std_sort_policy: "std_sort (CompareTxnSendingDetails pool) xs = sort_key (policy_key pool) xs"
  by (rule std_sort_key) (rule cmp_key)

lemma ident_details_of: "ident (details_of txn) = GetId txn"
  by (simp add: ident_def details_of_def)

lemma queue_after_remove:
  "mNewTxns (state_of (removeTransactions pool1 pool2 conn txns s)) =
     set_difference (CompareTxnSendingDetails pool2)
       (std_sort (CompareTxnSendingDetails pool2) (mNewTxns s))
       (std_sort (CompareTxnSendingDetails pool1) (map details_of txns))"
  by (cases conn) (simp_all add: removeTransactions_def Let_def emit_def)

lemma retract_filter:
  assumes "distinct (map ident P)"
  shows "set_difference (CompareTxnSendingDetails pool)
       (std_sort (CompareTxnSendingDetails pool) P)
       (std_sort (CompareTxnSendingDetails pool) (map details_of txns))
     = filter (\<lambda>d. ident d \<notin> GetId ` set txns) (std_sort (CompareTxnSendingDetails pool) P)"
proof -
  let ?k = "policy_key pool"
  let ?P = "sort_key ?k P" and ?S = "sort_key ?k (map details_of txns)"
  have "mset (map ?k ?P) = mset (map ?k P)" by simp
  then have "distinct (map ?k ?P) = distinct (map ?k P)"
    by (rule mset_eq_imp_distinct_iff)
  then have "distinct (map ?k ?P)"
    using assms by (simp add: key_distinct)
  moreover have "sorted (map ?k ?P)" "sorted (map ?k ?S)" by simp_all
  ultimately have "set_difference (CompareTxnSendingDetails pool) ?P ?S
      = filter (\<lambda>x. ?k x \<notin> ?k ` set ?S) ?P"
    by (intro set_difference_filter cmp_key)
  moreover have "\<And>x. (?k x \<notin> ?k ` set ?S) = (ident x \<notin> GetId ` set txns)"
    by (auto simp: policy_key_def ident_details_of image_iff)
  ultimately show ?thesis by (simp add: std_sort_policy)
qed

lemma std_sort_unique:
  assumes "mset xs = mset ys" "distinct (map ident xs)"
  shows "std_sort (CompareTxnSendingDetails pool) xs = std_sort (CompareTxnSendingDetails pool) ys"
proof -
  let ?k = "policy_key pool"
  have m: "mset (map ?k xs) = mset (map ?k ys)" using assms(1) by (metis mset_map)
  have dx: "distinct (map ?k xs)" using assms(2) by (simp add: key_distinct)
  have dy: "distinct (map ?k ys)" using dx m by (metis mset_eq_imp_distinct_iff)
  have "map ?k (sort_key ?k xs) = map ?k (sort_key ?k ys)"
  proof (rule sorted_distinct_set_unique)
    show "set (map ?k (sort_key ?k xs)) = set (map ?k (sort_key ?k ys))"
      using assms(1) by simp (metis mset_eq_setD)
  qed (use dx dy in \<open>simp_all add: distinct_map\<close>)
  moreover have "inj_on ?k (set (sort_key ?k xs) \<union> set (sort_key ?k ys))"
    using dx assms(1) by (simp add: distinct_map) (metis mset_eq_setD sup.idem)
  ultimately show ?thesis
    by (simp add: std_sort_policy inj_on_map_eq_map)
qed


lemma length_filter_sorted:
  "length (filter Q (std_sort cmp xs)) = length (filter Q xs)"
proof -
  have "mset (filter Q (std_sort cmp xs)) = mset (filter Q xs)"
    by (simp add: mset_std_sort)
  then show ?thesis by (metis size_mset)
qed

lemma length_filter_not:
  assumes "distinct xs"
  shows "length (filter (\<lambda>x. \<not> Q x) xs) = length xs - card {x \<in> set xs. Q x}"
proof -
  have "length (filter Q xs) = card {x \<in> set xs. Q x}"
    using assms by (simp add: distinct_length_filter Collect_conj_eq Int_commute)
  moreover have "length (filter Q xs) + length (filter (\<lambda>x. \<not> Q x) xs) = length xs"
    by (rule sum_length_filter_compl)
  ultimately show ?thesis by simp
qed

lemmas concrete_defs = removeTransactions_def newTransaction_def construct_def emit_def details_of_def
  CompareTxnSendingDetails_def pool_of_def ident_def MSG_TX_def Let_def getNewTxnQueueLength_def

section \<open>Retract and the pending queue\<close>

text \<open>
  C1, as amended. When no two descriptors of the pending queue have the same identity
  and the pool orders identities the same way at both lock acquisitions of the call,
  \<open>removeTransactions\<close> replaces the queue by exactly its descriptors whose identity is
  not an identity of the removal list, in the comparator's order; the result does not
  depend on the order of the queue or of the removal list; the queue length afterwards is
  the length before minus the number of pending descriptors named by the list; and a
  list naming no pending identity leaves the queue's members as they were.
\<close>

theorem retract_removes_exactly:
  assumes "distinct (map ident (mNewTxns s))"
  shows "mNewTxns (state_of (removeTransactions pool pool conn txns s)) =
           filter (\<lambda>d. ident d \<notin> GetId ` set txns)
             (std_sort (CompareTxnSendingDetails pool) (mNewTxns s))
       \<and> set (mNewTxns (state_of (removeTransactions pool pool conn txns s))) =
           {d \<in> set (mNewTxns s). ident d \<notin> GetId ` set txns}
       \<and> (mset (mNewTxns s') = mset (mNewTxns s) \<and> mset txns' = mset txns \<longrightarrow>
            mNewTxns (state_of (removeTransactions pool pool conn' txns' s')) =
            mNewTxns (state_of (removeTransactions pool pool conn txns s)))
       \<and> fst (getNewTxnQueueLength (state_of (removeTransactions pool pool conn txns s))) =
           length (mNewTxns s) - card {d \<in> set (mNewTxns s). ident d \<in> GetId ` set txns}
       \<and> (GetId ` set txns \<inter> ident ` set (mNewTxns s) = {} \<longrightarrow>
            mset (mNewTxns (state_of (removeTransactions pool pool conn txns s))) =
            mset (mNewTxns s))"
proof -
  let ?cmp = "CompareTxnSendingDetails pool"
  let ?keep = "\<lambda>d. ident d \<notin> GetId ` set txns"
  let ?q = "mNewTxns (state_of (removeTransactions pool pool conn txns s))"
  have q: "?q = filter ?keep (std_sort ?cmp (mNewTxns s))"
    by (simp add: queue_after_remove retract_filter[OF assms])
  have members: "set ?q = {d \<in> set (mNewTxns s). ?keep d}"
    by (auto simp: q set_std_sort)
  have order: "mNewTxns (state_of (removeTransactions pool pool conn' txns' s')) = ?q"
    if perm: "mset (mNewTxns s') = mset (mNewTxns s)" "mset txns' = mset txns"
  proof -
    have "mset (map ident (mNewTxns s')) = mset (map ident (mNewTxns s))"
      using perm(1) by (metis mset_map)
    then have d': "distinct (map ident (mNewTxns s'))"
      using assms by (metis mset_eq_imp_distinct_iff)
    have "mNewTxns (state_of (removeTransactions pool pool conn' txns' s')) =
        filter (\<lambda>d. ident d \<notin> GetId ` set txns') (std_sort ?cmp (mNewTxns s'))"
      by (simp add: queue_after_remove retract_filter[OF d'])
    moreover have "set txns' = set txns" using perm(2) by (rule mset_eq_setD)
    moreover have "std_sort ?cmp (mNewTxns s') = std_sort ?cmp (mNewTxns s)"
      by (rule std_sort_unique[OF perm(1) d'])
    ultimately show ?thesis
      by (simp add: q)
  qed
  have "distinct (mNewTxns s)" using assms by (simp add: distinct_map)
  then have len: "length ?q =
      length (mNewTxns s) - card {d \<in> set (mNewTxns s). ident d \<in> GetId ` set txns}"
    using length_filter_not[of "mNewTxns s" "\<lambda>d. ident d \<in> GetId ` set txns"]
    by (simp add: q length_filter_sorted)
  have absent: "mset ?q = mset (mNewTxns s)"
    if "GetId ` set txns \<inter> ident ` set (mNewTxns s) = {}"
  proof -
    have "\<forall>d \<in> set (std_sort ?cmp (mNewTxns s)). ?keep d"
      using that by (auto simp: set_std_sort)
    then have "?q = std_sort ?cmp (mNewTxns s)"
      unfolding q by (simp add: filter_id_conv)
    then show ?thesis by (simp add: mset_std_sort)
  qed
  from q members order len absent show ?thesis
    by (simp add: getNewTxnQueueLength_def)
qed

theorem retract_removes_exactly_witness:
  "distinct (map ident (mNewTxns
       (newTransaction (details_of (CTransaction 3 0))
         (newTransaction (details_of (CTransaction 2 0))
           (newTransaction (details_of (CTransaction 1 0)) (construct 5000))))))
   \<and> mNewTxns (state_of (removeTransactions (pool_of [(1, 9), (2, 3), (3, 3)])
         (pool_of [(1, 9), (2, 3), (3, 3)]) (Inr [11, 12])
         [CTransaction 3 0, CTransaction 8 0]
         (newTransaction (details_of (CTransaction 3 0))
           (newTransaction (details_of (CTransaction 2 0))
             (newTransaction (details_of (CTransaction 1 0)) (construct 5000))))))
     = [details_of (CTransaction 2 0), details_of (CTransaction 1 0)]
   \<and> mNewTxns (state_of (removeTransactions (pool_of [(1, 9), (2, 3), (3, 3)])
         (pool_of [(1, 9), (2, 3), (3, 3)]) (Inr [])
         [CTransaction 8 0, CTransaction 3 0]
         (newTransaction (details_of (CTransaction 1 0))
           (newTransaction (details_of (CTransaction 3 0))
             (newTransaction (details_of (CTransaction 2 0)) (construct 5000))))))
     = [details_of (CTransaction 2 0), details_of (CTransaction 1 0)]
   \<and> fst (getNewTxnQueueLength (state_of (removeTransactions (pool_of [(1, 9), (2, 3), (3, 3)])
         (pool_of [(1, 9), (2, 3), (3, 3)]) (Inr [11, 12])
         [CTransaction 3 0, CTransaction 8 0]
         (newTransaction (details_of (CTransaction 3 0))
           (newTransaction (details_of (CTransaction 2 0))
             (newTransaction (details_of (CTransaction 1 0)) (construct 5000))))))) = 2"
proof -
  have h: "distinct (map ident (mNewTxns
       (newTransaction (details_of (CTransaction 3 0))
         (newTransaction (details_of (CTransaction 2 0))
           (newTransaction (details_of (CTransaction 1 0)) (construct 5000))))))"
    by (simp add: concrete_defs)
  show ?thesis
    using h retract_removes_exactly[OF h, of "pool_of [(1, 9), (2, 3), (3, 3)]" "Inr [11, 12]"
        "[CTransaction 3 0, CTransaction 8 0]"
        "newTransaction (details_of (CTransaction 1 0))
           (newTransaction (details_of (CTransaction 3 0))
             (newTransaction (details_of (CTransaction 2 0)) (construct 5000)))"
        "[CTransaction 8 0, CTransaction 3 0]" "Inr []"]
    by (simp add: concrete_defs)
qed

text \<open>
  C1 as stated fails when an identity is pending twice: \<open>std::set_difference\<close> drops
  one element of the first range for each equivalent element of the second, so one of
  the two equal descriptors survives the removal of their identity.
\<close>

theorem retract_removes_exactly_counterexample:
  "mNewTxns (state_of (removeTransactions (pool_of []) (pool_of []) (Inr [])
       [CTransaction 1 0]
       (newTransaction (details_of (CTransaction 1 0))
         (newTransaction (details_of (CTransaction 1 0)) (construct 5000)))))
   = [details_of (CTransaction 1 0)]
   \<and> ident (details_of (CTransaction 1 0)) = GetId (CTransaction 1 0)"
  by (simp add: concrete_defs)

text \<open>
  The theorem takes the same pool view at both lock acquisitions. When the pool reorders
  two transactions between the sort of the removal list and the sort of the queue, the
  removal list is no longer sorted for the comparator that \<open>std::set_difference\<close> runs
  with, and a named descriptor can stay pending.
\<close>

lemma retract_under_changing_pool:
  "mNewTxns (state_of (removeTransactions (pool_of [(1, 1)]) (pool_of []) (Inr [])
       [CTransaction 1 0, CTransaction 2 0]
       (foldl interfere (construct 5000)
         (map Submit [details_of (CTransaction 1 0), details_of (CTransaction 2 0)]))))
   = [details_of (CTransaction 1 0)]"
  by (simp add: concrete_defs)

section \<open>The no-duplicate invariant\<close>

lemma std_sort_distinct_map: "distinct (map f (std_sort cmp xs)) = distinct (map f xs)"
proof -
  have "mset (map f (std_sort cmp xs)) = mset (map f xs)"
    by (simp add: mset_std_sort)
  then show ?thesis by (rule mset_eq_imp_distinct_iff)
qed

lemma queue_after_submit: "mNewTxns (newTransaction txn s) = mNewTxns s @ [txn]"
  by (simp add: newTransaction_def emit_def)

lemma queue_after_dispatch:
  "mNewTxns (state_of (processNewTransactions conn s)) =
     (case conn of Inl e \<Rightarrow> mNewTxns s | Inr nodes \<Rightarrow> [])"
  by (cases conn) (simp_all add: processNewTransactions_def Let_def emit_def)

lemma no_duplicates_submit:
  "no_duplicates (newTransaction txn s) =
     (no_duplicates s \<and> ident txn \<notin> set (map ident (mNewTxns s)))"
  by (auto simp: no_duplicates_def queue_after_submit)

lemma no_duplicates_retract:
  "no_duplicates s \<Longrightarrow> no_duplicates (state_of (removeTransactions pool1 pool2 conn txns s))"
  unfolding no_duplicates_def queue_after_remove
  by (intro set_difference_distinct) (simp add: std_sort_distinct_map)

lemma no_duplicates_dispatch:
  "no_duplicates s \<Longrightarrow> no_duplicates (state_of (processNewTransactions conn s))"
  by (cases conn) (simp_all add: no_duplicates_def queue_after_dispatch)

lemma no_duplicates_setRunFrequency: "no_duplicates (setRunFrequency freq s) = no_duplicates s"
  by (simp add: no_duplicates_def setRunFrequency_def emit_def)

lemma no_duplicates_shutdown_signal: "no_duplicates (shutdown_signal s) = no_duplicates s"
  by (simp add: no_duplicates_def shutdown_signal_def emit_def)

lemma no_duplicates_interfere:
  "no_duplicates s \<Longrightarrow> fresh_submits s [ByCaller c] \<Longrightarrow> no_duplicates (interfere s c)"
  by (cases c)
    (simp_all add: no_duplicates_submit no_duplicates_retract
      no_duplicates_setRunFrequency no_duplicates_shutdown_signal)

lemma no_duplicates_apply_op:
  "no_duplicates s \<Longrightarrow> fresh_submits s [op] \<Longrightarrow> no_duplicates (apply_op s op)"
  by (cases op) (simp_all add: no_duplicates_interfere no_duplicates_dispatch)

lemma fresh_submits_Cons:
  "fresh_submits s (op # ops) = (fresh_submits s [op] \<and> fresh_submits (apply_op s op) ops)"
proof (cases op)
  case (ByCaller c)
  then show ?thesis by (cases c) simp_all
next
  case (DispatchCycle conn)
  then show ?thesis by simp
qed

lemma no_duplicates_run:
  "no_duplicates s \<Longrightarrow> fresh_submits s ops \<Longrightarrow> no_duplicates (foldl apply_op s (take n ops))"
proof (induction ops arbitrary: s n)
  case Nil
  then show ?case by simp
next
  case (Cons op ops)
  show ?case
  proof (cases n)
    case 0
    then show ?thesis using Cons.prems by simp
  next
    case (Suc m)
    have "fresh_submits s [op]" "fresh_submits (apply_op s op) ops"
      using Cons.prems(2) fresh_submits_Cons by blast+
    then show ?thesis
      using Cons.IH[of "apply_op s op" m] Cons.prems(1) Suc
      by (simp add: no_duplicates_apply_op)
  qed
qed

text \<open>
  C2, as amended. Starting from a queue without duplicate identities, at every point of
  every sequence of public calls and dispatch cycles in which each \<open>Submit\<close> names an
  identity that is not pending when it runs, the pending queue holds no two descriptors
  with the same identity. \<open>removeTransactions\<close> and the dispatch cycle never introduce a
  duplicate; \<open>newTransaction\<close> keeps the invariant exactly when the submitted identity
  is not already pending, since it does not deduplicate.
\<close>

theorem no_duplicates_kept:
  "(no_duplicates s \<and> fresh_submits s ops \<longrightarrow>
      no_duplicates (foldl apply_op s (take n ops)))
   \<and> (no_duplicates s \<longrightarrow>
        no_duplicates (state_of (removeTransactions pool1 pool2 conn txns s))
        \<and> no_duplicates (state_of (processNewTransactions conn s)))
   \<and> no_duplicates (newTransaction txn s) =
       (no_duplicates s \<and> ident txn \<notin> set (map ident (mNewTxns s)))"
  using no_duplicates_run no_duplicates_retract no_duplicates_dispatch no_duplicates_submit
  by blast

theorem no_duplicates_kept_witness:
  "no_duplicates (construct 5000)
   \<and> fresh_submits (construct 5000)
        [ByCaller (Submit (details_of (CTransaction 1 0))),
         ByCaller (Submit (details_of (CTransaction 2 0))),
         ByCaller (Retract (pool_of []) (pool_of []) (Inr [7]) [CTransaction 1 0]),
         ByCaller (Submit (details_of (CTransaction 1 0))),
         DispatchCycle (Inr [7, 8]),
         ByCaller (Submit (details_of (CTransaction 2 0)))]
   \<and> no_duplicates (foldl apply_op (construct 5000) (take 4
        [ByCaller (Submit (details_of (CTransaction 1 0))),
         ByCaller (Submit (details_of (CTransaction 2 0))),
         ByCaller (Retract (pool_of []) (pool_of []) (Inr [7]) [CTransaction 1 0]),
         ByCaller (Submit (details_of (CTransaction 1 0))),
         DispatchCycle (Inr [7, 8]),
         ByCaller (Submit (details_of (CTransaction 2 0)))]))
   \<and> mNewTxns (foldl apply_op (construct 5000) (take 4
        [ByCaller (Submit (details_of (CTransaction 1 0))),
         ByCaller (Submit (details_of (CTransaction 2 0))),
         ByCaller (Retract (pool_of []) (pool_of []) (Inr [7]) [CTransaction 1 0]),
         ByCaller (Submit (details_of (CTransaction 1 0))),
         DispatchCycle (Inr [7, 8]),
         ByCaller (Submit (details_of (CTransaction 2 0)))]))
       = [details_of (CTransaction 2 0), details_of (CTransaction 1 0)]
   \<and> no_duplicates (state_of (removeTransactions (pool_of []) (pool_of []) (Inr [7])
        [CTransaction 1 0] (construct 5000)))
   \<and> no_duplicates (state_of (processNewTransactions (Inr [7]) (construct 5000)))"
proof -
  have h: "no_duplicates (construct 5000)"
    by (simp add: no_duplicates_def construct_def)
  have f: "fresh_submits (construct 5000)
        [ByCaller (Submit (details_of (CTransaction 1 0))),
         ByCaller (Submit (details_of (CTransaction 2 0))),
         ByCaller (Retract (pool_of []) (pool_of []) (Inr [7]) [CTransaction 1 0]),
         ByCaller (Submit (details_of (CTransaction 1 0))),
         DispatchCycle (Inr [7, 8]),
         ByCaller (Submit (details_of (CTransaction 2 0)))]"
    by (simp add: concrete_defs processNewTransactions_def)
  have q: "mNewTxns (foldl apply_op (construct 5000) (take 4
        [ByCaller (Submit (details_of (CTransaction 1 0))),
         ByCaller (Submit (details_of (CTransaction 2 0))),
         ByCaller (Retract (pool_of []) (pool_of []) (Inr [7]) [CTransaction 1 0]),
         ByCaller (Submit (details_of (CTransaction 1 0))),
         DispatchCycle (Inr [7, 8]),
         ByCaller (Submit (details_of (CTransaction 2 0)))]))
       = [details_of (CTransaction 2 0), details_of (CTransaction 1 0)]"
    by (simp add: concrete_defs)
  show ?thesis
    using h f q
      no_duplicates_kept[of "construct 5000"
        "[ByCaller (Submit (details_of (CTransaction 1 0))),
         ByCaller (Submit (details_of (CTransaction 2 0))),
         ByCaller (Retract (pool_of []) (pool_of []) (Inr [7]) [CTransaction 1 0]),
         ByCaller (Submit (details_of (CTransaction 1 0))),
         DispatchCycle (Inr [7, 8]),
         ByCaller (Submit (details_of (CTransaction 2 0)))]" 4
        "pool_of []" "pool_of []" "Inr [7]" "[CTransaction 1 0]"]
    by simp
qed

text \<open>
  C2 as stated fails: two submissions of the same transaction leave its identity
  pending twice.
\<close>

theorem no_duplicates_kept_counterexample:
  "\<not> no_duplicates
       (foldl apply_op (construct 5000)
          [ByCaller (Submit (details_of (CTransaction 1 0))),
           ByCaller (Submit (details_of (CTransaction 1 0)))])"
  by (simp add: no_duplicates_def concrete_defs)

section \<open>Submit, dispatch and the fan-out of a removal\<close>

lemma queue_after_submits: "mNewTxns (foldl interfere s (map Submit txns)) = mNewTxns s @ txns"
  by (induction txns arbitrary: s) (simp_all add: queue_after_submit)

lemma trace_after_submits:
  "trace (foldl interfere s (map Submit txns)) =
     trace s @ concat (map (\<lambda>txn. [Acquire NewTxnsMtx, Release NewTxnsMtx]) txns)"
  by (induction txns arbitrary: s) (simp_all add: newTransaction_def emit_def)

text \<open>
  C7. \<open>newTransaction\<close> appends its descriptor at the end of the pending queue and does
  nothing to the condition variable: it takes and releases the mutex, and that is all.
  So after any sequence of submissions (with distinct identities or not) the queue is the
  old queue followed by the submitted descriptors, and \<open>getNewTxnQueueLength\<close> on a
  newly constructed engine returns the number of submissions.
\<close>

theorem submit_appends:
  "mNewTxns (newTransaction txn s) = mNewTxns s @ [txn]
   \<and> trace (newTransaction txn s) = trace s @ [Acquire NewTxnsMtx, Release NewTxnsMtx]
   \<and> mNewTxns (foldl interfere s (map Submit txns)) = mNewTxns s @ txns
   \<and> NotifyOne \<notin> set (new_events s (foldl interfere s (map Submit txns)))
   \<and> fst (getNewTxnQueueLength (foldl interfere (construct runFreq) (map Submit txns)))
       = length txns"
  by (auto simp: queue_after_submits trace_after_submits getNewTxnQueueLength_def
      newTransaction_def emit_def construct_def new_events_def)

theorem submit_appends_witness:
  "mNewTxns (foldl interfere (construct 5000)
       (map Submit [details_of (CTransaction 4 0), details_of (CTransaction 2 0),
                    details_of (CTransaction 9 0)]))
     = [details_of (CTransaction 4 0), details_of (CTransaction 2 0),
        details_of (CTransaction 9 0)]
   \<and> fst (getNewTxnQueueLength (foldl interfere (construct 5000)
       (map Submit [details_of (CTransaction 4 0), details_of (CTransaction 2 0),
                    details_of (CTransaction 9 0)]))) = 3
   \<and> trace (foldl interfere (construct 5000)
       (map Submit [details_of (CTransaction 4 0), details_of (CTransaction 2 0),
                    details_of (CTransaction 9 0)]))
     = [Acquire NewTxnsMtx, Release NewTxnsMtx, Acquire NewTxnsMtx, Release NewTxnsMtx,
        Acquire NewTxnsMtx, Release NewTxnsMtx]"
  using submit_appends[of "details_of (CTransaction 4 0)" "construct 5000"
      "[details_of (CTransaction 4 0), details_of (CTransaction 2 0),
        details_of (CTransaction 9 0)]" 5000]
  by (simp add: concrete_defs)

lemma handler_pass_at_wake:
  "handler_pass w s =
     (if mRunning (at_wake w s) \<and> mNewTxns (at_wake w s) \<noteq> []
      then (case fanout w of
              Inl e \<Rightarrow>
                Threw e (emit [Log (GotNewTxns (length (mNewTxns (at_wake w s)))),
                               Acquire MempoolCs, FanOutAdd (mNewTxns (at_wake w s)),
                               Release MempoolCs, Release NewTxnsMtx] (at_wake w s))
            | Inr nodes \<Rightarrow>
                Done ((emit ([Log (GotNewTxns (length (mNewTxns (at_wake w s)))),
                              Acquire MempoolCs, FanOutAdd (mNewTxns (at_wake w s))]
                             @ map (\<lambda>node. AddTxnsToInventory node (mNewTxns (at_wake w s))) nodes
                             @ [Release MempoolCs, Release NewTxnsMtx]) (at_wake w s))
                       \<lparr>mNewTxns := []\<rparr>))
      else Done (emit [Release NewTxnsMtx] (at_wake w s)))"
  by (cases "fanout w")
    (simp_all add: handler_pass_def at_wake_def processNewTransactions_def Let_def emit_def)

lemma dispatch_result:
  "processNewTransactions (Inr nodes) s =
     Done (s\<lparr>mNewTxns := [],
             trace := trace s @ [Acquire MempoolCs, FanOutAdd (mNewTxns s)]
               @ map (\<lambda>node. AddTxnsToInventory node (mNewTxns s)) nodes
               @ [Release MempoolCs]\<rparr>)"
  by (simp add: processNewTransactions_def Let_def emit_def)

text \<open>
  C3. With a non-empty pending queue and any snapshot of connected peers, the empty one
  included, \<open>processNewTransactions\<close> returns without raising, hands the whole queue to
  \<open>AddTxnsToInventory\<close> of every peer of the snapshot while it holds the pool lock, and
  leaves the queue empty. A pass of the loop that wakes up with the flag set and a
  non-empty queue runs exactly this cycle on the queue it found and ends with the queue
  empty.
\<close>

theorem dispatch_cycle_completes:
  "mNewTxns s \<noteq> [] \<Longrightarrow>
     \<not> threw (processNewTransactions (Inr nodes) s)
     \<and> new_events s (state_of (processNewTransactions (Inr nodes) s)) =
         [Acquire MempoolCs, FanOutAdd (mNewTxns s)]
           @ map (\<lambda>node. AddTxnsToInventory node (mNewTxns s)) nodes
           @ [Release MempoolCs]
     \<and> (\<forall>node \<in> set nodes.
           AddTxnsToInventory node (mNewTxns s)
             \<in> set (new_events s (state_of (processNewTransactions (Inr nodes) s))))
     \<and> mNewTxns (state_of (processNewTransactions (Inr nodes) s)) = []
     \<and> (mRunning (at_wake w s') \<and> mNewTxns (at_wake w s') \<noteq> [] \<and> fanout w = Inr nodes \<longrightarrow>
          \<not> threw (handler_pass w s')
          \<and> new_events (at_wake w s') (state_of (handler_pass w s')) =
              [Log (GotNewTxns (length (mNewTxns (at_wake w s')))),
               Acquire MempoolCs, FanOutAdd (mNewTxns (at_wake w s'))]
                @ map (\<lambda>node. AddTxnsToInventory node (mNewTxns (at_wake w s'))) nodes
                @ [Release MempoolCs, Release NewTxnsMtx]
          \<and> mNewTxns (state_of (handler_pass w s')) = [])"
proof -
  let ?batch = "mNewTxns s"
  let ?after = "state_of (processNewTransactions (Inr nodes) s)"
  have returns: "\<not> threw (processNewTransactions (Inr nodes) s)"
    by (simp add: dispatch_result)
  have events: "new_events s ?after =
      [Acquire MempoolCs, FanOutAdd ?batch]
        @ map (\<lambda>node. AddTxnsToInventory node ?batch) nodes @ [Release MempoolCs]"
    by (simp add: dispatch_result new_events_def)
  have every_peer: "\<forall>node \<in> set nodes. AddTxnsToInventory node ?batch \<in> set (new_events s ?after)"
    unfolding events by simp
  have cleared: "mNewTxns ?after = []"
    by (simp add: dispatch_result)
  have pass: "\<not> threw (handler_pass w s')
      \<and> new_events (at_wake w s') (state_of (handler_pass w s')) =
          [Log (GotNewTxns (length (mNewTxns (at_wake w s')))),
           Acquire MempoolCs, FanOutAdd (mNewTxns (at_wake w s'))]
            @ map (\<lambda>node. AddTxnsToInventory node (mNewTxns (at_wake w s'))) nodes
            @ [Release MempoolCs, Release NewTxnsMtx]
      \<and> mNewTxns (state_of (handler_pass w s')) = []"
    if "mRunning (at_wake w s')" "mNewTxns (at_wake w s') \<noteq> []" "fanout w = Inr nodes"
    using that by (simp add: handler_pass_at_wake emit_def new_events_def)
  from returns events every_peer cleared pass show ?thesis by blast
qed

theorem dispatch_cycle_completes_witness:
  "mNewTxns (foldl interfere (construct 5000)
       (map Submit [details_of (CTransaction 4 0), details_of (CTransaction 2 0)])) \<noteq> []
   \<and> \<not> threw (processNewTransactions (Inr [])
       (foldl interfere (construct 5000)
         (map Submit [details_of (CTransaction 4 0), details_of (CTransaction 2 0)])))
   \<and> mNewTxns (state_of (processNewTransactions (Inr [])
       (foldl interfere (construct 5000)
         (map Submit [details_of (CTransaction 4 0), details_of (CTransaction 2 0)])))) = []
   \<and> new_events
       (foldl interfere (construct 5000)
         (map Submit [details_of (CTransaction 4 0), details_of (CTransaction 2 0)]))
       (state_of (processNewTransactions (Inr [])
         (foldl interfere (construct 5000)
           (map Submit [details_of (CTransaction 4 0), details_of (CTransaction 2 0)]))))
     = [Acquire MempoolCs,
        FanOutAdd [details_of (CTransaction 4 0), details_of (CTransaction 2 0)],
        Release MempoolCs]
   \<and> new_events
       (foldl interfere (construct 5000)
         (map Submit [details_of (CTransaction 4 0), details_of (CTransaction 2 0)]))
       (state_of (processNewTransactions (Inr [7, 8])
         (foldl interfere (construct 5000)
           (map Submit [details_of (CTransaction 4 0), details_of (CTransaction 2 0)]))))
     = [Acquire MempoolCs,
        FanOutAdd [details_of (CTransaction 4 0), details_of (CTransaction 2 0)],
        AddTxnsToInventory 7 [details_of (CTransaction 4 0), details_of (CTransaction 2 0)],
        AddTxnsToInventory 8 [details_of (CTransaction 4 0), details_of (CTransaction 2 0)],
        Release MempoolCs]
   \<and> mRunning (at_wake
         \<lparr>during_wait = [Submit (details_of (CTransaction 4 0)),
                         Submit (details_of (CTransaction 2 0))],
          fanout = Inr [], after_pass = []\<rparr> (construct 5000))
   \<and> mNewTxns (at_wake
         \<lparr>during_wait = [Submit (details_of (CTransaction 4 0)),
                         Submit (details_of (CTransaction 2 0))],
          fanout = Inr [], after_pass = []\<rparr> (construct 5000))
       = [details_of (CTransaction 4 0), details_of (CTransaction 2 0)]
   \<and> \<not> threw (handler_pass
         \<lparr>during_wait = [Submit (details_of (CTransaction 4 0)),
                         Submit (details_of (CTransaction 2 0))],
          fanout = Inr [], after_pass = []\<rparr> (construct 5000))
   \<and> mNewTxns (state_of (handler_pass
         \<lparr>during_wait = [Submit (details_of (CTransaction 4 0)),
                         Submit (details_of (CTransaction 2 0))],
          fanout = Inr [], after_pass = []\<rparr> (construct 5000))) = []"
proof -
  have h: "mNewTxns (foldl interfere (construct 5000)
       (map Submit [details_of (CTransaction 4 0), details_of (CTransaction 2 0)])) \<noteq> []"
    by (simp add: concrete_defs)
  show ?thesis
    using h
      dispatch_cycle_completes[OF h, of "[]"
        "\<lparr>during_wait = [Submit (details_of (CTransaction 4 0)),
                        Submit (details_of (CTransaction 2 0))],
          fanout = Inr [], after_pass = []\<rparr>" "construct 5000"]
      dispatch_cycle_completes[OF h, of "[7, 8]"]
    by (simp add: concrete_defs processNewTransactions_def new_events_def
        at_wake_def wait_for_def handler_pass_def)
qed

lemma std_sort_sorted:
  "sorted_wrt (\<lambda>a b. \<not> CompareTxnSendingDetails pool b a)
     (std_sort (CompareTxnSendingDetails pool) xs)"
proof -
  have "sorted (map (policy_key pool) (sort_key (policy_key pool) xs))" by simp
  then show ?thesis
    by (simp add: std_sort_policy sorted_map cmp_key not_less)
qed

lemma remove_result:
  "removeTransactions pool1 pool2 (Inr nodes) txns s =
     Done (s\<lparr>mNewTxns :=
               set_difference (CompareTxnSendingDetails pool2)
                 (std_sort (CompareTxnSendingDetails pool2) (mNewTxns s))
                 (std_sort (CompareTxnSendingDetails pool1) (map details_of txns)),
             trace := trace s @
               [Log (Purging (length txns)), Acquire MempoolCs, Release MempoolCs,
                Acquire NewTxnsMtx, Acquire MempoolCs, Release MempoolCs, Release NewTxnsMtx,
                Acquire MempoolCs,
                FanOutRemove (std_sort (CompareTxnSendingDetails pool1) (map details_of txns))]
               @ map (\<lambda>node. RemoveTxnsFromInventory node
                       (std_sort (CompareTxnSendingDetails pool1) (map details_of txns))) nodes
               @ [Release MempoolCs]\<rparr>)"
  by (simp add: removeTransactions_def Let_def emit_def)

text \<open>
  C10. \<open>removeTransactions\<close> hands to \<open>RemoveTxnsFromInventory\<close> of every connected peer
  the whole removal list, sorted by the comparator: a permutation of the descriptors built
  from all the transactions it was given, whether or not they are pending. The pending
  queue it leaves behind is in the comparator's order.
\<close>

theorem retract_fans_out_whole_list:
  "trace (state_of (removeTransactions pool1 pool2 (Inr nodes) txns s)) =
     trace s @
       [Log (Purging (length txns)), Acquire MempoolCs, Release MempoolCs,
        Acquire NewTxnsMtx, Acquire MempoolCs, Release MempoolCs, Release NewTxnsMtx,
        Acquire MempoolCs,
        FanOutRemove (std_sort (CompareTxnSendingDetails pool1) (map details_of txns))]
       @ map (\<lambda>node. RemoveTxnsFromInventory node
               (std_sort (CompareTxnSendingDetails pool1) (map details_of txns))) nodes
       @ [Release MempoolCs]
   \<and> mset (std_sort (CompareTxnSendingDetails pool1) (map details_of txns))
       = mset (map details_of txns)
   \<and> sorted_wrt (\<lambda>a b. \<not> CompareTxnSendingDetails pool1 b a)
       (std_sort (CompareTxnSendingDetails pool1) (map details_of txns))
   \<and> sorted_wrt (\<lambda>a b. \<not> CompareTxnSendingDetails pool2 b a)
       (mNewTxns (state_of (removeTransactions pool1 pool2 (Inr nodes) txns s)))"
proof -
  let ?list = "std_sort (CompareTxnSendingDetails pool1) (map details_of txns)"
  let ?after = "state_of (removeTransactions pool1 pool2 (Inr nodes) txns s)"
  have events: "trace ?after =
      trace s @
        [Log (Purging (length txns)), Acquire MempoolCs, Release MempoolCs,
         Acquire NewTxnsMtx, Acquire MempoolCs, Release MempoolCs, Release NewTxnsMtx,
         Acquire MempoolCs, FanOutRemove ?list]
        @ map (\<lambda>node. RemoveTxnsFromInventory node ?list) nodes @ [Release MempoolCs]"
    by (simp add: remove_result)
  have whole: "mset ?list = mset (map details_of txns)"
    by (rule mset_std_sort)
  have list_sorted: "sorted_wrt (\<lambda>a b. \<not> CompareTxnSendingDetails pool1 b a) ?list"
    by (rule std_sort_sorted)
  have "sorted_wrt (\<lambda>a b. \<not> CompareTxnSendingDetails pool2 b a)
      (set_difference (CompareTxnSendingDetails pool2)
         (std_sort (CompareTxnSendingDetails pool2) (mNewTxns s)) ?list)"
    by (intro set_difference_sorted_wrt std_sort_sorted)
  then have queue_sorted: "sorted_wrt (\<lambda>a b. \<not> CompareTxnSendingDetails pool2 b a)
      (mNewTxns ?after)"
    by (simp add: queue_after_remove)
  from events whole list_sorted queue_sorted show ?thesis by blast
qed

theorem retract_fans_out_whole_list_witness:
  "new_events
       (foldl interfere (construct 5000)
         (map Submit [details_of (CTransaction 5 0), details_of (CTransaction 3 0),
                      details_of (CTransaction 4 0)]))
       (state_of (removeTransactions (pool_of [(5, 1)]) (pool_of [(5, 1)])
         (Inr [7, 8]) [CTransaction 6 0, CTransaction 3 0]
         (foldl interfere (construct 5000)
           (map Submit [details_of (CTransaction 5 0), details_of (CTransaction 3 0),
                        details_of (CTransaction 4 0)]))))
     = [Log (Purging 2), Acquire MempoolCs, Release MempoolCs,
        Acquire NewTxnsMtx, Acquire MempoolCs, Release MempoolCs, Release NewTxnsMtx,
        Acquire MempoolCs,
        FanOutRemove [details_of (CTransaction 3 0), details_of (CTransaction 6 0)],
        RemoveTxnsFromInventory 7 [details_of (CTransaction 3 0), details_of (CTransaction 6 0)],
        RemoveTxnsFromInventory 8 [details_of (CTransaction 3 0), details_of (CTransaction 6 0)],
        Release MempoolCs]
   \<and> mNewTxns (state_of (removeTransactions (pool_of [(5, 1)]) (pool_of [(5, 1)])
       (Inr [7, 8]) [CTransaction 6 0, CTransaction 3 0]
       (foldl interfere (construct 5000)
         (map Submit [details_of (CTransaction 5 0), details_of (CTransaction 3 0),
                      details_of (CTransaction 4 0)]))))
     = [details_of (CTransaction 4 0), details_of (CTransaction 5 0)]"
  using retract_fans_out_whole_list[of "pool_of [(5, 1)]" "pool_of [(5, 1)]" "[7, 8]"
      "[CTransaction 6 0, CTransaction 3 0]"
      "foldl interfere (construct 5000)
         (map Submit [details_of (CTransaction 5 0), details_of (CTransaction 3 0),
                      details_of (CTransaction 4 0)])"]
  by (simp add: concrete_defs new_events_def)

section \<open>The run frequency\<close>

lemma frequency_interfere: "mRunFrequency (interfere s c) = freq_after (mRunFrequency s) c"
proof (cases c)
  case (Retract pool1 pool2 conn txns)
  then show ?thesis
    by (cases conn) (simp_all add: removeTransactions_def Let_def emit_def)
qed (simp_all add: newTransaction_def setRunFrequency_def shutdown_signal_def emit_def)

lemma frequency_calls:
  "mRunFrequency (foldl interfere s calls) = foldl freq_after (mRunFrequency s) calls"
  by (induction calls arbitrary: s) (simp_all add: frequency_interfere)

lemma freq_after_unchanged:
  "\<not> list_ex sets_frequency calls \<Longrightarrow> foldl freq_after f calls = f"
proof (induction calls arbitrary: f)
  case (Cons c calls)
  then show ?case by (cases c) simp_all
qed simp

lemma frequency_pass:
  "mRunFrequency (state_of (handler_pass w s)) =
     foldl freq_after (mRunFrequency s) (during_wait w)"
  by (cases "fanout w")
    (simp_all add: handler_pass_def wait_for_def processNewTransactions_def Let_def emit_def
      frequency_calls)

lemma trace_interfere: "prefix (trace s) (trace (interfere s c))"
proof (cases c)
  case (Retract pool1 pool2 conn txns)
  then show ?thesis
    by (cases conn) (simp_all add: removeTransactions_def Let_def emit_def)
qed (simp_all add: newTransaction_def setRunFrequency_def shutdown_signal_def emit_def)

lemma trace_calls: "prefix (trace s) (trace (foldl interfere s calls))"
proof (induction calls arbitrary: s)
  case (Cons c calls)
  then show ?case
    using trace_interfere[of s c] by (auto intro: prefix_order.trans)
qed simp

lemma trace_wait_for:
  "prefix (trace s @ [Release NewTxnsMtx, WaitFor (mRunFrequency s)]) (trace (wait_for calls s))"
proof -
  have "prefix (trace (emit [Release NewTxnsMtx, WaitFor (mRunFrequency s)] s))
      (trace (foldl interfere (emit [Release NewTxnsMtx, WaitFor (mRunFrequency s)] s) calls))"
    by (rule trace_calls)
  then show ?thesis
    by (auto simp: wait_for_def emit_def prefix_def)
qed

lemma trace_pass_wait_for:
  "prefix (trace (wait_for (during_wait w) (emit [Acquire NewTxnsMtx] s)))
     (trace (state_of (handler_pass w s)))"
  by (cases "fanout w")
    (simp_all add: handler_pass_def processNewTransactions_def Let_def emit_def)

lemma pass_waits:
  "prefix (trace s @ [Acquire NewTxnsMtx, Release NewTxnsMtx, WaitFor (mRunFrequency s)])
     (trace (state_of (handler_pass w s)))"
proof -
  have "prefix (trace s @ [Acquire NewTxnsMtx, Release NewTxnsMtx, WaitFor (mRunFrequency s)])
      (trace (wait_for (during_wait w) (emit [Acquire NewTxnsMtx] s)))"
    using trace_wait_for[of "emit [Acquire NewTxnsMtx] s" "during_wait w"]
    by (simp add: emit_def)
  then show ?thesis
    using trace_pass_wait_for[of w s] by (rule prefix_order.trans)
qed

text \<open>
  C8. \<open>setRunFrequency\<close> takes the mutex, stores the duration, notifies the condition
  variable and releases the mutex; \<open>getRunFrequency\<close> then returns that duration. A pass
  of the loop hands the stored frequency to \<open>wait_for\<close>, so the pass after the call
  waits with the new duration; and when the call arrives while the thread is blocked in
  \<open>wait_for\<close> and is the last change before the next pass, that next pass waits with
  the new duration.
\<close>

theorem setRunFrequency_takes_effect:
  "mRunFrequency (setRunFrequency freq s) = freq
   \<and> trace (setRunFrequency freq s) =
       trace s @ [Acquire NewTxnsMtx, NotifyOne, Release NewTxnsMtx]
   \<and> fst (getRunFrequency (setRunFrequency freq s)) = freq
   \<and> prefix (trace (setRunFrequency freq s)
         @ [Acquire NewTxnsMtx, Release NewTxnsMtx, WaitFor freq])
       (trace (state_of (handler_pass w (setRunFrequency freq s))))
   \<and> (during_wait w = before @ SetRunFrequency freq # later
       \<and> \<not> list_ex sets_frequency later \<and> \<not> list_ex sets_frequency (after_pass w) \<longrightarrow>
       prefix (trace (foldl interfere (state_of (handler_pass w s)) (after_pass w))
           @ [Acquire NewTxnsMtx, Release NewTxnsMtx, WaitFor freq])
         (trace (state_of (handler_pass w'
            (foldl interfere (state_of (handler_pass w s)) (after_pass w))))))"
proof -
  have stored: "mRunFrequency (setRunFrequency freq s) = freq"
    by (simp add: setRunFrequency_def emit_def)
  have events: "trace (setRunFrequency freq s) =
      trace s @ [Acquire NewTxnsMtx, NotifyOne, Release NewTxnsMtx]"
    by (simp add: setRunFrequency_def emit_def)
  have read: "fst (getRunFrequency (setRunFrequency freq s)) = freq"
    by (simp add: getRunFrequency_def stored)
  have next_pass: "prefix (trace (setRunFrequency freq s)
         @ [Acquire NewTxnsMtx, Release NewTxnsMtx, WaitFor freq])
       (trace (state_of (handler_pass w (setRunFrequency freq s))))"
    using pass_waits[of "setRunFrequency freq s" w] by (simp add: stored)
  have mid_wait: "prefix (trace (foldl interfere (state_of (handler_pass w s)) (after_pass w))
           @ [Acquire NewTxnsMtx, Release NewTxnsMtx, WaitFor freq])
         (trace (state_of (handler_pass w'
            (foldl interfere (state_of (handler_pass w s)) (after_pass w)))))"
    if "during_wait w = before @ SetRunFrequency freq # later"
      "\<not> list_ex sets_frequency later" "\<not> list_ex sets_frequency (after_pass w)"
  proof -
    have "mRunFrequency (foldl interfere (state_of (handler_pass w s)) (after_pass w)) = freq"
      using that by (simp add: frequency_calls frequency_pass freq_after_unchanged)
    then show ?thesis
      using pass_waits[of "foldl interfere (state_of (handler_pass w s)) (after_pass w)" w']
      by simp
  qed
  from stored events read next_pass mid_wait show ?thesis by blast
qed


theorem setRunFrequency_takes_effect_witness:
  "mRunFrequency (setRunFrequency 250 (construct 5000)) = 250
   \<and> fst (getRunFrequency (setRunFrequency 250 (construct 5000))) = 250
   \<and> during_wait \<lparr>during_wait = [Submit (details_of (CTransaction 1 0)), SetRunFrequency 250],
                    fanout = Inr [7], after_pass = []\<rparr>
       = [Submit (details_of (CTransaction 1 0))] @ SetRunFrequency 250 # []
   \<and> \<not> list_ex sets_frequency []
   \<and> trace (state_of (handler_pass \<lparr>during_wait = [], fanout = Inr [], after_pass = []\<rparr>
       (foldl interfere
          (state_of (handler_pass
             \<lparr>during_wait = [Submit (details_of (CTransaction 1 0)), SetRunFrequency 250],
              fanout = Inr [7], after_pass = []\<rparr> (construct 5000)))
          [])))
     = [Acquire NewTxnsMtx, Release NewTxnsMtx, WaitFor 5000,
        Acquire NewTxnsMtx, Release NewTxnsMtx,
        Acquire NewTxnsMtx, NotifyOne, Release NewTxnsMtx,
        Acquire NewTxnsMtx, Log (GotNewTxns 1), Acquire MempoolCs,
        FanOutAdd [details_of (CTransaction 1 0)],
        AddTxnsToInventory 7 [details_of (CTransaction 1 0)],
        Release MempoolCs, Release NewTxnsMtx,
        Acquire NewTxnsMtx, Release NewTxnsMtx, WaitFor 250,
        Acquire NewTxnsMtx, Release NewTxnsMtx]"
  using setRunFrequency_takes_effect[of 250 "construct 5000"
      "\<lparr>during_wait = [Submit (details_of (CTransaction 1 0)), SetRunFrequency 250],
        fanout = Inr [7], after_pass = []\<rparr>"
      "[Submit (details_of (CTransaction 1 0))]" "[]"
      "\<lparr>during_wait = [], fanout = Inr [], after_pass = []\<rparr>"]
  by (simp add: concrete_defs handler_pass_def wait_for_def processNewTransactions_def
      setRunFrequency_def getRunFrequency_def)

section \<open>The background thread\<close>

lemma running_interfere: "\<not> mRunning s \<Longrightarrow> \<not> mRunning (interfere s c)"
proof (cases c)
  case (Retract pool1 pool2 conn txns)
  then show "\<not> mRunning s \<Longrightarrow> \<not> mRunning (interfere s c)"
    by (cases conn) (simp_all add: removeTransactions_def Let_def emit_def)
qed (simp_all add: newTransaction_def setRunFrequency_def shutdown_signal_def emit_def)

lemma running_calls: "\<not> mRunning s \<Longrightarrow> \<not> mRunning (foldl interfere s calls)"
  by (induction calls arbitrary: s) (simp_all add: running_interfere)

lemma running_after_Shutdown: "\<not> mRunning (interfere s Shutdown)"
  by (simp add: shutdown_signal_def emit_def)

lemma stopped_by_Shutdown:
  "Shutdown \<in> set calls \<Longrightarrow> \<not> mRunning (foldl interfere s calls)"
proof (induction calls arbitrary: s)
  case (Cons c calls)
  show ?case
  proof (cases "c = Shutdown")
    case True
    then show ?thesis
      using running_calls[OF running_after_Shutdown, of s calls] by simp
  next
    case False
    then show ?thesis using Cons by simp
  qed
qed simp

lemma stopped_at_wake: "Shutdown \<in> set (during_wait w) \<Longrightarrow> \<not> mRunning (at_wake w s)"
  using stopped_by_Shutdown[of "during_wait w"]
  by (simp add: at_wake_def wait_for_def emit_def)

lemma handler_loop_stopped: "\<not> mRunning s \<Longrightarrow> handler_loop ws s = Returned s"
  by (cases ws) simp_all

lemma empty_batch_interfere:
  "FanOutAdd b \<in> set (trace (interfere s c)) \<longleftrightarrow> FanOutAdd b \<in> set (trace s)"
proof (cases c)
  case (Retract pool1 pool2 conn txns)
  then show ?thesis
    by (cases conn) (auto simp: removeTransactions_def Let_def emit_def)
qed (auto simp: newTransaction_def setRunFrequency_def shutdown_signal_def emit_def)

lemma empty_batch_calls:
  "FanOutAdd b \<in> set (trace (foldl interfere s calls)) \<longleftrightarrow> FanOutAdd b \<in> set (trace s)"
  by (induction calls arbitrary: s) (simp_all add: empty_batch_interfere)

lemma empty_batch_at_wake:
  "FanOutAdd b \<in> set (trace (at_wake w s)) \<longleftrightarrow> FanOutAdd b \<in> set (trace s)"
  by (simp add: at_wake_def wait_for_def emit_def empty_batch_calls)

lemma empty_batch_pass:
  "FanOutAdd [] \<in> set (trace (state_of (handler_pass w s))) \<longleftrightarrow> FanOutAdd [] \<in> set (trace s)"
  using empty_batch_at_wake[of "[]" w s]
  by (cases "fanout w") (auto simp: handler_pass_at_wake emit_def)

lemma empty_batch_loop:
  "FanOutAdd [] \<notin> set (trace s) \<Longrightarrow>
     FanOutAdd [] \<notin> set (trace (thread_state (handler_loop ws s)))"
proof (induction ws arbitrary: s)
  case Nil
  then show ?case by simp
next
  case (Cons w ws)
  show ?case
  proof (cases "mRunning s")
    case False
    then show ?thesis using Cons.prems by simp
  next
    case True
    have pass: "FanOutAdd [] \<notin> set (trace (state_of (handler_pass w s)))"
      using Cons.prems by (simp add: empty_batch_pass)
    show ?thesis
    proof (cases "handler_pass w s")
      case (Done s')
      then have "FanOutAdd [] \<notin> set (trace (foldl interfere s' (after_pass w)))"
        using pass by (simp add: empty_batch_calls)
      then show ?thesis using True Done Cons.IH by simp
    next
      case (Threw e s')
      then show ?thesis using True pass by simp
    qed
  qed
qed

lemma empty_batch_thread:
  "FanOutAdd [] \<notin> set (trace s) \<Longrightarrow>
     FanOutAdd [] \<notin> set (trace (thread_state (threadNewTxnHandler ws s)))"
proof -
  assume "FanOutAdd [] \<notin> set (trace s)"
  then have "FanOutAdd [] \<notin> set (trace (emit [Log ThreadStarting] s))"
    by (simp add: emit_def)
  then have "FanOutAdd [] \<notin> set (trace (thread_state (handler_loop ws (emit [Log ThreadStarting] s))))"
    by (rule empty_batch_loop)
  then show ?thesis
    by (cases "handler_loop ws (emit [Log ThreadStarting] s)")
      (simp_all add: threadNewTxnHandler_def emit_def)
qed

text \<open>
  C5. A pass of the loop that finds the running flag cleared or the queue empty when
  \<open>wait_for\<close> has returned does nothing but release the mutex: it does not call
  \<open>processNewTransactions\<close>. So the thread never fans out an empty batch, whatever the
  wake-ups and the calls of other threads. When another thread called \<open>shutdown\<close> during
  the wait, the pass dispatches nothing and the loop exits at its next test.
\<close>

theorem dispatch_needs_running_and_pending:
  "(\<not> (mRunning (at_wake w s) \<and> mNewTxns (at_wake w s) \<noteq> []) \<longrightarrow>
       handler_pass w s = Done (emit [Release NewTxnsMtx] (at_wake w s)))
   \<and> (FanOutAdd [] \<notin> set (trace s) \<longrightarrow>
        FanOutAdd [] \<notin> set (trace (thread_state (threadNewTxnHandler ws s))))
   \<and> (mRunning s \<and> Shutdown \<in> set (during_wait w) \<longrightarrow>
        handler_loop (w # ws) s =
          Returned (foldl interfere (emit [Release NewTxnsMtx] (at_wake w s)) (after_pass w)))"
proof -
  have quiet: "handler_pass w s = Done (emit [Release NewTxnsMtx] (at_wake w s))"
    if "\<not> (mRunning (at_wake w s) \<and> mNewTxns (at_wake w s) \<noteq> [])"
    using that by (auto simp: handler_pass_at_wake)
  have stop: "handler_loop (w # ws) s =
      Returned (foldl interfere (emit [Release NewTxnsMtx] (at_wake w s)) (after_pass w))"
    if "mRunning s" "Shutdown \<in> set (during_wait w)"
  proof -
    have off: "\<not> mRunning (at_wake w s)"
      using that(2) by (rule stopped_at_wake)
    then have "\<not> mRunning (emit [Release NewTxnsMtx] (at_wake w s))"
      by (simp add: emit_def)
    then have "\<not> mRunning (foldl interfere (emit [Release NewTxnsMtx] (at_wake w s)) (after_pass w))"
      by (rule running_calls)
    then show ?thesis
      using that(1) quiet off by (simp add: handler_loop_stopped)
  qed
  from quiet stop empty_batch_thread show ?thesis by blast
qed


theorem dispatch_needs_running_and_pending_witness:
  "mRunning (newTransaction (details_of (CTransaction 1 0)) (construct 5000))
   \<and> Shutdown \<in> set (during_wait
         \<lparr>during_wait = [Submit (details_of (CTransaction 2 0)), Shutdown],
          fanout = Inr [7], after_pass = []\<rparr>)
   \<and> \<not> mRunning (at_wake
         \<lparr>during_wait = [Submit (details_of (CTransaction 2 0)), Shutdown],
          fanout = Inr [7], after_pass = []\<rparr>
         (newTransaction (details_of (CTransaction 1 0)) (construct 5000)))
   \<and> mNewTxns (at_wake
         \<lparr>during_wait = [Submit (details_of (CTransaction 2 0)), Shutdown],
          fanout = Inr [7], after_pass = []\<rparr>
         (newTransaction (details_of (CTransaction 1 0)) (construct 5000)))
       = [details_of (CTransaction 1 0), details_of (CTransaction 2 0)]
   \<and> FanOutAdd [] \<notin> set (trace (newTransaction (details_of (CTransaction 1 0)) (construct 5000)))
   \<and> trace (thread_state (threadNewTxnHandler
         [\<lparr>during_wait = [Submit (details_of (CTransaction 2 0)), Shutdown],
           fanout = Inr [7], after_pass = []\<rparr>,
          \<lparr>during_wait = [], fanout = Inr [7], after_pass = []\<rparr>]
         (newTransaction (details_of (CTransaction 1 0)) (construct 5000))))
       = [Acquire NewTxnsMtx, Release NewTxnsMtx, Log ThreadStarting,
          Acquire NewTxnsMtx, Release NewTxnsMtx, WaitFor 5000,
          Acquire NewTxnsMtx, Release NewTxnsMtx,
          Acquire NewTxnsMtx, NotifyOne, Release NewTxnsMtx,
          Acquire NewTxnsMtx, Release NewTxnsMtx, Log ThreadStopping]"
  using dispatch_needs_running_and_pending[of
      "\<lparr>during_wait = [Submit (details_of (CTransaction 2 0)), Shutdown],
        fanout = Inr [7], after_pass = []\<rparr>"
      "newTransaction (details_of (CTransaction 1 0)) (construct 5000)"
      "[\<lparr>during_wait = [], fanout = Inr [7], after_pass = []\<rparr>]"]
  by (simp add: concrete_defs at_wake_def wait_for_def handler_pass_def shutdown_signal_def
      threadNewTxnHandler_def)

lemma handler_loop_append:
  "handler_loop pre s = StillLooping s1 \<Longrightarrow> handler_loop (pre @ ws) s = handler_loop ws s1"
proof (induction pre arbitrary: s)
  case Nil
  then show ?case by (cases ws) (auto split: if_splits)
next
  case (Cons w pre)
  then show ?case
    by (cases "handler_pass w s") (auto split: if_splits)
qed

lemma still_looping_running: "handler_loop pre s = StillLooping s1 \<Longrightarrow> mRunning s1"
proof (induction pre arbitrary: s)
  case Nil
  then show ?case by (auto split: if_splits)
next
  case (Cons w pre)
  then show ?case
    by (cases "handler_pass w s") (auto split: if_splits)
qed

text \<open>
  C6. \<open>threadNewTxnHandler\<close> never lets an exception out. When the fan-out of a dispatch
  cycle raises, the pass unwinds (the pool lock and the mutex are released, the queue is
  not cleared), the loop is left, the handler logs the exception, and the thread
  returns: the wake-ups that would have followed are not served, and the failed cycle is
  not run again.
\<close>

theorem exception_ends_thread:
  "threadNewTxnHandler ws s \<noteq> Raised e s'
   \<and> (handler_loop pre (emit [Log ThreadStarting] s) = StillLooping s1
       \<and> mRunning (at_wake w s1) \<and> mNewTxns (at_wake w s1) \<noteq> [] \<and> fanout w = Inl e \<longrightarrow>
       threadNewTxnHandler (pre @ w # ws) s =
         Returned (emit [Log (GotNewTxns (length (mNewTxns (at_wake w s1)))),
                         Acquire MempoolCs, FanOutAdd (mNewTxns (at_wake w s1)),
                         Release MempoolCs, Release NewTxnsMtx,
                         Log UnexpectedException] (at_wake w s1)))"
proof -
  have caught: "threadNewTxnHandler ws s \<noteq> Raised e s'"
    by (cases "handler_loop ws (emit [Log ThreadStarting] s)")
      (simp_all add: threadNewTxnHandler_def)
  have ends: "threadNewTxnHandler (pre @ w # ws) s =
         Returned (emit [Log (GotNewTxns (length (mNewTxns (at_wake w s1)))),
                         Acquire MempoolCs, FanOutAdd (mNewTxns (at_wake w s1)),
                         Release MempoolCs, Release NewTxnsMtx,
                         Log UnexpectedException] (at_wake w s1))"
    if loop: "handler_loop pre (emit [Log ThreadStarting] s) = StillLooping s1"
      and wake: "mRunning (at_wake w s1)" "mNewTxns (at_wake w s1) \<noteq> []"
      and fails: "fanout w = Inl e"
  proof -
    have "mRunning s1" using loop by (rule still_looping_running)
    moreover have "handler_pass w s1 =
        Threw e (emit [Log (GotNewTxns (length (mNewTxns (at_wake w s1)))),
                       Acquire MempoolCs, FanOutAdd (mNewTxns (at_wake w s1)),
                       Release MempoolCs, Release NewTxnsMtx] (at_wake w s1))"
      using wake fails by (simp add: handler_pass_at_wake)
    ultimately have "handler_loop (pre @ w # ws) (emit [Log ThreadStarting] s) =
        Raised e (emit [Log (GotNewTxns (length (mNewTxns (at_wake w s1)))),
                       Acquire MempoolCs, FanOutAdd (mNewTxns (at_wake w s1)),
                       Release MempoolCs, Release NewTxnsMtx] (at_wake w s1))"
      using handler_loop_append[OF loop, of "w # ws"] by simp
    then show ?thesis
      by (simp add: threadNewTxnHandler_def emit_def)
  qed
  from caught ends show ?thesis by blast
qed

theorem exception_ends_thread_witness:
  "handler_loop [\<lparr>during_wait = [], fanout = Inr [7],
                   after_pass = [Submit (details_of (CTransaction 2 0))]\<rparr>]
       (emit [Log ThreadStarting] (newTransaction (details_of (CTransaction 1 0)) (construct 5000)))
     = StillLooping (thread_state (handler_loop
         [\<lparr>during_wait = [], fanout = Inr [7],
           after_pass = [Submit (details_of (CTransaction 2 0))]\<rparr>]
         (emit [Log ThreadStarting]
            (newTransaction (details_of (CTransaction 1 0)) (construct 5000)))))
   \<and> mRunning (at_wake \<lparr>during_wait = [], fanout = Inl (Exception ''bad_alloc''), after_pass = []\<rparr>
        (thread_state (handler_loop
           [\<lparr>during_wait = [], fanout = Inr [7],
             after_pass = [Submit (details_of (CTransaction 2 0))]\<rparr>]
           (emit [Log ThreadStarting]
              (newTransaction (details_of (CTransaction 1 0)) (construct 5000))))))
   \<and> mNewTxns (at_wake \<lparr>during_wait = [], fanout = Inl (Exception ''bad_alloc''), after_pass = []\<rparr>
        (thread_state (handler_loop
           [\<lparr>during_wait = [], fanout = Inr [7],
             after_pass = [Submit (details_of (CTransaction 2 0))]\<rparr>]
           (emit [Log ThreadStarting]
              (newTransaction (details_of (CTransaction 1 0)) (construct 5000))))))
       = [details_of (CTransaction 2 0)]
   \<and> new_events
         (thread_state (handler_loop
           [\<lparr>during_wait = [], fanout = Inr [7],
             after_pass = [Submit (details_of (CTransaction 2 0))]\<rparr>]
           (emit [Log ThreadStarting]
              (newTransaction (details_of (CTransaction 1 0)) (construct 5000)))))
         (thread_state (threadNewTxnHandler
           ([\<lparr>during_wait = [], fanout = Inr [7],
              after_pass = [Submit (details_of (CTransaction 2 0))]\<rparr>]
            @ \<lparr>during_wait = [], fanout = Inl (Exception ''bad_alloc''), after_pass = []\<rparr>
            # [\<lparr>during_wait = [], fanout = Inr [7], after_pass = []\<rparr>])
           (newTransaction (details_of (CTransaction 1 0)) (construct 5000))))
       = [Acquire NewTxnsMtx, Release NewTxnsMtx, WaitFor 5000,
          Acquire NewTxnsMtx, Log (GotNewTxns 1), Acquire MempoolCs,
          FanOutAdd [details_of (CTransaction 2 0)],
          Release MempoolCs, Release NewTxnsMtx, Log UnexpectedException]
   \<and> mNewTxns (thread_state (threadNewTxnHandler
         ([\<lparr>during_wait = [], fanout = Inr [7],
            after_pass = [Submit (details_of (CTransaction 2 0))]\<rparr>]
          @ \<lparr>during_wait = [], fanout = Inl (Exception ''bad_alloc''), after_pass = []\<rparr>
          # [\<lparr>during_wait = [], fanout = Inr [7], after_pass = []\<rparr>])
         (newTransaction (details_of (CTransaction 1 0)) (construct 5000))))
       = [details_of (CTransaction 2 0)]"
  using exception_ends_thread[of
      "[\<lparr>during_wait = [], fanout = Inr [7], after_pass = []\<rparr>]"
      "newTransaction (details_of (CTransaction 1 0)) (construct 5000)"
      "Exception ''bad_alloc''"
      "construct 5000"
      "[\<lparr>during_wait = [], fanout = Inr [7],
         after_pass = [Submit (details_of (CTransaction 2 0))]\<rparr>]"
      "thread_state (handler_loop
         [\<lparr>during_wait = [], fanout = Inr [7],
           after_pass = [Submit (details_of (CTransaction 2 0))]\<rparr>]
         (emit [Log ThreadStarting]
            (newTransaction (details_of (CTransaction 1 0)) (construct 5000))))"
      "\<lparr>during_wait = [], fanout = Inl (Exception ''bad_alloc''), after_pass = []\<rparr>"]
  by (simp add: concrete_defs at_wake_def wait_for_def handler_pass_def processNewTransactions_def
      threadNewTxnHandler_def new_events_def)

section \<open>The order of the two locks\<close>

lemma lock_order_append:
  "lock_order held (es @ es') = (lock_order held es \<and> lock_order (held_after held es) es')"
  by (induction held es rule: lock_order.induct) simp_all

lemma held_after_append: "held_after held (es @ es') = held_after (held_after held es) es'"
  by (induction held es rule: held_after.induct) simp_all

lemma keeps_order_refl: "keeps_order held t t held"
  by (simp add: keeps_order_def)

lemma keeps_order_append:
  "keeps_order held t (t @ es) held' = (lock_order held es \<and> held_after held es = held')"
  by (simp add: keeps_order_def)

lemma keeps_order_trans:
  assumes "keeps_order h t t' h'" "keeps_order h' t' t'' h''"
  shows "keeps_order h t t'' h''"
proof -
  obtain es where es: "t' = t @ es" using assms(1) by (auto simp: keeps_order_def prefix_def)
  obtain es' where es': "t'' = t' @ es'" using assms(2) by (auto simp: keeps_order_def prefix_def)
  show ?thesis
    using assms unfolding es es'
    by (simp add: keeps_order_def lock_order_append held_after_append)
qed

lemma lock_order_add_calls:
  "lock_order held (map (\<lambda>node. AddTxnsToInventory node b) nodes @ es) = lock_order held es"
  by (induction nodes) simp_all

lemma held_after_add_calls:
  "held_after held (map (\<lambda>node. AddTxnsToInventory node b) nodes @ es) = held_after held es"
  by (induction nodes) simp_all

lemma lock_order_remove_calls:
  "lock_order held (map (\<lambda>node. RemoveTxnsFromInventory node b) nodes @ es) = lock_order held es"
  by (induction nodes) simp_all

lemma held_after_remove_calls:
  "held_after held (map (\<lambda>node. RemoveTxnsFromInventory node b) nodes @ es) = held_after held es"
  by (induction nodes) simp_all

lemmas fan_out_calls = lock_order_add_calls held_after_add_calls
  lock_order_remove_calls held_after_remove_calls

lemma keeps_order_remove:
  "keeps_order [] (trace s) (trace (state_of (removeTransactions pool1 pool2 conn txns s))) []"
proof (cases conn)
  case (Inl e)
  then show ?thesis
    by (simp add: removeTransactions_def Let_def emit_def keeps_order_append)
next
  case (Inr nodes)
  have "lock_order [MempoolCs]
      (map (\<lambda>node. RemoveTxnsFromInventory node b) nodes @ [Release MempoolCs])"
    "held_after [MempoolCs]
      (map (\<lambda>node. RemoveTxnsFromInventory node b) nodes @ [Release MempoolCs]) = []" for b
    by (simp_all add: fan_out_calls)
  then show ?thesis
    using Inr by (simp add: removeTransactions_def Let_def emit_def keeps_order_append)
qed

lemma keeps_order_interfere: "keeps_order [] (trace s) (trace (interfere s c)) []"
proof (cases c)
  case (Retract pool1 pool2 conn txns)
  then show ?thesis by (simp add: keeps_order_remove)
qed (simp_all add: newTransaction_def setRunFrequency_def shutdown_signal_def emit_def
      keeps_order_append keeps_order_refl)

lemma keeps_order_calls: "keeps_order [] (trace s) (trace (foldl interfere s calls)) []"
proof (induction calls arbitrary: s)
  case Nil
  then show ?case by (simp add: keeps_order_refl)
next
  case (Cons c calls)
  show ?case
    using keeps_order_interfere[of s c] Cons[of "interfere s c"]
    by (auto intro: keeps_order_trans)
qed

lemma keeps_order_at_wake: "keeps_order [] (trace s) (trace (at_wake w s)) [NewTxnsMtx]"
proof -
  let ?s1 = "emit [Acquire NewTxnsMtx, Release NewTxnsMtx, WaitFor (mRunFrequency s)] s"
  let ?s2 = "foldl interfere ?s1 (during_wait w)"
  have "keeps_order [] (trace s) (trace ?s1) []"
    by (simp add: emit_def keeps_order_append)
  moreover have "keeps_order [] (trace ?s1) (trace ?s2) []"
    by (rule keeps_order_calls)
  moreover have "keeps_order [] (trace ?s2) (trace (emit [Acquire NewTxnsMtx] ?s2)) [NewTxnsMtx]"
    by (simp add: emit_def keeps_order_append)
  moreover have "at_wake w s = emit [Acquire NewTxnsMtx] ?s2"
    by (simp add: at_wake_def wait_for_def emit_def)
  ultimately show ?thesis
    by (metis keeps_order_trans)
qed

lemma keeps_order_pass: "keeps_order [] (trace s) (trace (state_of (handler_pass w s))) []"
proof -
  have "keeps_order [NewTxnsMtx] (trace (at_wake w s)) (trace (state_of (handler_pass w s))) []"
    by (cases "fanout w")
      (simp_all add: handler_pass_at_wake emit_def keeps_order_append fan_out_calls)
  with keeps_order_at_wake show ?thesis by (rule keeps_order_trans)
qed

lemma keeps_order_loop: "keeps_order [] (trace s) (trace (thread_state (handler_loop ws s))) []"
proof (induction ws arbitrary: s)
  case Nil
  then show ?case by (simp add: keeps_order_refl)
next
  case (Cons w ws)
  show ?case
  proof (cases "mRunning s")
    case False
    then show ?thesis by (simp add: keeps_order_refl)
  next
    case True
    show ?thesis
    proof (cases "handler_pass w s")
      case (Done s')
      have "keeps_order [] (trace s) (trace s') []"
        using keeps_order_pass[of s w] Done by simp
      moreover have "keeps_order [] (trace s') (trace (foldl interfere s' (after_pass w))) []"
        by (rule keeps_order_calls)
      ultimately have "keeps_order [] (trace s) (trace (foldl interfere s' (after_pass w))) []"
        by (rule keeps_order_trans)
      then show ?thesis
        using True Done Cons[of "foldl interfere s' (after_pass w)"]
        by (auto intro: keeps_order_trans)
    next
      case (Threw e s')
      then show ?thesis
        using True keeps_order_pass[of s w] by simp
    qed
  qed
qed

lemma keeps_order_thread:
  "keeps_order [] (trace s) (trace (thread_state (threadNewTxnHandler ws s))) []"
proof -
  let ?s0 = "emit [Log ThreadStarting] s"
  have "keeps_order [] (trace s) (trace ?s0) []"
    by (simp add: emit_def keeps_order_append)
  moreover have "keeps_order [] (trace ?s0) (trace (thread_state (handler_loop ws ?s0))) []"
    by (rule keeps_order_loop)
  moreover have "keeps_order [] (trace (thread_state (handler_loop ws ?s0)))
      (trace (thread_state (threadNewTxnHandler ws s))) []"
    by (cases "handler_loop ws ?s0")
      (simp_all add: threadNewTxnHandler_def emit_def keeps_order_append keeps_order_refl)
  ultimately show ?thesis
    by (metis keeps_order_trans)
qed

lemma keeps_order_dispatch:
  "keeps_order [NewTxnsMtx] (trace s) (trace (state_of (processNewTransactions conn s)))
     [NewTxnsMtx]"
  by (cases conn)
    (simp_all add: processNewTransactions_def Let_def emit_def keeps_order_append fan_out_calls)

text \<open>
  C9. In the events of every operation of the engine the queue's mutex is never
  acquired while the pool lock is held: the public operations and the whole run of the
  background thread start and end with no lock held, and \<open>processNewTransactions\<close>, which
  is entered with the mutex held, takes the pool lock inside it. The two places that
  hold both locks, the filter of \<open>removeTransactions\<close> and the dispatch of a loop pass,
  take the mutex first.
\<close>

theorem queue_lock_before_pool_lock:
  "lock_order [] (new_events s (snd (getRunFrequency s)))
   \<and> lock_order [] (new_events s (setRunFrequency freq s))
   \<and> lock_order [] (new_events s (snd (getNewTxnQueueLength s)))
   \<and> lock_order [] (new_events s (newTransaction txn s))
   \<and> lock_order [] (new_events s (state_of (removeTransactions pool1 pool2 conn txns s)))
   \<and> lock_order [] (new_events s (shutdown s))
   \<and> lock_order [NewTxnsMtx] (new_events s (state_of (processNewTransactions conn s)))
   \<and> lock_order [] (new_events s (state_of (handler_pass w s)))
   \<and> lock_order [] (new_events s (thread_state (threadNewTxnHandler ws s)))"
  using keeps_order_remove[of s pool1 pool2 conn txns] keeps_order_dispatch[of s conn]
    keeps_order_pass[of s w] keeps_order_thread[of s ws]
  by (simp add: keeps_order_def new_events_def getRunFrequency_def setRunFrequency_def
      getNewTxnQueueLength_def newTransaction_def shutdown_def shutdown_signal_def emit_def)


theorem queue_lock_before_pool_lock_witness:
  "new_events (construct 5000)
       (state_of (removeTransactions (pool_of []) (pool_of []) (Inr [7]) [CTransaction 1 0]
          (construct 5000)))
     = [Log (Purging 1), Acquire MempoolCs, Release MempoolCs,
        Acquire NewTxnsMtx, Acquire MempoolCs, Release MempoolCs, Release NewTxnsMtx,
        Acquire MempoolCs, FanOutRemove [details_of (CTransaction 1 0)],
        RemoveTxnsFromInventory 7 [details_of (CTransaction 1 0)], Release MempoolCs]
   \<and> lock_order [] (new_events (construct 5000)
         (state_of (removeTransactions (pool_of []) (pool_of []) (Inr [7]) [CTransaction 1 0]
            (construct 5000))))
   \<and> new_events (construct 5000)
       (thread_state (threadNewTxnHandler
          [\<lparr>during_wait = [Submit (details_of (CTransaction 1 0))], fanout = Inr [7],
            after_pass = [Shutdown]\<rparr>] (construct 5000)))
     = [Log ThreadStarting, Acquire NewTxnsMtx, Release NewTxnsMtx, WaitFor 5000,
        Acquire NewTxnsMtx, Release NewTxnsMtx,
        Acquire NewTxnsMtx, Log (GotNewTxns 1), Acquire MempoolCs,
        FanOutAdd [details_of (CTransaction 1 0)],
        AddTxnsToInventory 7 [details_of (CTransaction 1 0)],
        Release MempoolCs, Release NewTxnsMtx,
        Acquire NewTxnsMtx, NotifyOne, Release NewTxnsMtx, Log ThreadStopping]
   \<and> lock_order [] (new_events (construct 5000)
       (thread_state (threadNewTxnHandler
          [\<lparr>during_wait = [Submit (details_of (CTransaction 1 0))], fanout = Inr [7],
            after_pass = [Shutdown]\<rparr>] (construct 5000))))
   \<and> \<not> lock_order [] [Acquire MempoolCs, Acquire NewTxnsMtx]"
  using queue_lock_before_pool_lock[of "construct 5000" 250 "details_of (CTransaction 1 0)"
      "pool_of []" "pool_of []" "Inr [7]" "[CTransaction 1 0]"
      "\<lparr>during_wait = [Submit (details_of (CTransaction 1 0))], fanout = Inr [7],
        after_pass = [Shutdown]\<rparr>"
      "[\<lparr>during_wait = [Submit (details_of (CTransaction 1 0))], fanout = Inr [7],
         after_pass = [Shutdown]\<rparr>]"]
  by (simp add: concrete_defs new_events_def at_wake_def wait_for_def handler_pass_def
      processNewTransactions_def shutdown_signal_def threadNewTxnHandler_def)

section \<open>Several threads in shutdown\<close>

lemma filter_update_count:
  "i < length xs \<Longrightarrow>
     length (filter P (xs[i := y])) + (if P (xs ! i) then 1 else 0) =
     length (filter P xs) + (if P y then 1 else 0)"
proof (induction xs arbitrary: i)
  case Nil
  then show ?case by simp
next
  case (Cons x xs)
  then show ?case by (cases i) auto
qed

lemma none_won: "\<forall>p \<in> set xs. p = AtCompareExchange \<Longrightarrow> filter P xs = (if P AtCompareExchange then xs else [])"
  by (induction xs) auto

lemma in_set_update: "p \<in> set (xs[i := y]) \<Longrightarrow> p = y \<or> p \<in> set xs"
  using set_update_subset_insert[of xs i y] by auto

lemma shutdown_inv_start: "shutdown_inv n (start n runFreq)"
  by (simp add: shutdown_inv_def start_def construct_def)

lemma shutdown_inv_caller:
  assumes inv: "shutdown_inv n \<sigma>" and i: "i < length (callers \<sigma>)"
  shows "shutdown_inv n (caller_step i (callers \<sigma> ! i) \<sigma>)"
proof (cases "callers \<sigma> ! i")
  case AtCompareExchange
  show ?thesis
  proof (cases "mRunning (engine \<sigma>)")
    case True
    then have all: "\<forall>p \<in> set (callers \<sigma>). p = AtCompareExchange"
      using inv by (simp add: shutdown_inv_def)
    have w: "length (filter won ((callers \<sigma>)[i := AtNotify])) = 1"
      using filter_update_count[OF i, of won AtNotify] AtCompareExchange
      by (simp add: none_won[OF all])
    have n: "length (filter notified ((callers \<sigma>)[i := AtNotify])) = length (filter notified (callers \<sigma>))"
      using filter_update_count[OF i, of notified AtNotify] AtCompareExchange by simp
    have j: "length (filter (\<lambda>p. p = AtEnd True) ((callers \<sigma>)[i := AtNotify]))
        = length (filter (\<lambda>p. p = AtEnd True) (callers \<sigma>))"
      using filter_update_count[OF i, of "\<lambda>p. p = AtEnd True" AtNotify] AtCompareExchange by simp
    have e: "AtEnd True \<in> set ((callers \<sigma>)[i := AtNotify]) \<Longrightarrow> handlerExited \<sigma>"
      using inv by (auto simp: shutdown_inv_def dest: in_set_update)
    show ?thesis
      using inv AtCompareExchange True w n j e by (auto simp: shutdown_inv_def)
  next
    case False
    have w: "length (filter won ((callers \<sigma>)[i := AtEnd False])) = length (filter won (callers \<sigma>))"
      using filter_update_count[OF i, of won "AtEnd False"] AtCompareExchange by simp
    have n: "length (filter notified ((callers \<sigma>)[i := AtEnd False])) = length (filter notified (callers \<sigma>))"
      using filter_update_count[OF i, of notified "AtEnd False"] AtCompareExchange by simp
    have j: "length (filter (\<lambda>p. p = AtEnd True) ((callers \<sigma>)[i := AtEnd False]))
        = length (filter (\<lambda>p. p = AtEnd True) (callers \<sigma>))"
      using filter_update_count[OF i, of "\<lambda>p. p = AtEnd True" "AtEnd False"] AtCompareExchange by simp
    have e: "AtEnd True \<in> set ((callers \<sigma>)[i := AtEnd False]) \<Longrightarrow> handlerExited \<sigma>"
      using inv by (auto simp: shutdown_inv_def dest: in_set_update)
    show ?thesis
      using inv AtCompareExchange False w n j e by (auto simp: shutdown_inv_def)
  qed
next
  case AtNotify
  then have off: "\<not> mRunning (engine \<sigma>)"
    using inv i nth_mem[OF i] by (auto simp: shutdown_inv_def)
  have w: "length (filter won ((callers \<sigma>)[i := AtJoin])) = length (filter won (callers \<sigma>))"
    using filter_update_count[OF i, of won AtJoin] AtNotify by simp
  have n: "length (filter notified ((callers \<sigma>)[i := AtJoin])) = Suc (length (filter notified (callers \<sigma>)))"
    using filter_update_count[OF i, of notified AtJoin] AtNotify by simp
  have j: "length (filter (\<lambda>p. p = AtEnd True) ((callers \<sigma>)[i := AtJoin]))
      = length (filter (\<lambda>p. p = AtEnd True) (callers \<sigma>))"
    using filter_update_count[OF i, of "\<lambda>p. p = AtEnd True" AtJoin] AtNotify by simp
  have e: "AtEnd True \<in> set ((callers \<sigma>)[i := AtJoin]) \<Longrightarrow> handlerExited \<sigma>"
    using inv by (auto simp: shutdown_inv_def dest: in_set_update)
  show ?thesis
    using inv AtNotify off w n j e by (auto simp: shutdown_inv_def emit_def)
next
  case AtJoin
  then have off: "\<not> mRunning (engine \<sigma>)"
    using inv i nth_mem[OF i] by (auto simp: shutdown_inv_def)
  show ?thesis
  proof (cases "handlerExited \<sigma>")
    case True
    have w: "length (filter won ((callers \<sigma>)[i := AtEnd True])) = length (filter won (callers \<sigma>))"
      using filter_update_count[OF i, of won "AtEnd True"] AtJoin by simp
    have n: "length (filter notified ((callers \<sigma>)[i := AtEnd True])) = length (filter notified (callers \<sigma>))"
      using filter_update_count[OF i, of notified "AtEnd True"] AtJoin by simp
    have j: "length (filter (\<lambda>p. p = AtEnd True) ((callers \<sigma>)[i := AtEnd True]))
        = Suc (length (filter (\<lambda>p. p = AtEnd True) (callers \<sigma>)))"
      using filter_update_count[OF i, of "\<lambda>p. p = AtEnd True" "AtEnd True"] AtJoin by simp
    show ?thesis
      using inv AtJoin off True w n j by (auto simp: shutdown_inv_def emit_def)
  next
    case False
    then show ?thesis using inv AtJoin by simp
  qed
next
  case (AtEnd b)
  then show ?thesis using inv by simp
qed

lemma shutdown_inv_step: "shutdown_inv n \<sigma> \<Longrightarrow> shutdown_inv n (step \<sigma> a)"
proof (cases a)
  case (Caller i)
  then show "shutdown_inv n \<sigma> \<Longrightarrow> shutdown_inv n (step \<sigma> a)"
    by (simp add: shutdown_inv_caller)
next
  case HandlerTest
  then show "shutdown_inv n \<sigma> \<Longrightarrow> shutdown_inv n (step \<sigma> a)"
    by (simp add: shutdown_inv_def)
next
  case HandlerRaise
  then show "shutdown_inv n \<sigma> \<Longrightarrow> shutdown_inv n (step \<sigma> a)"
    by (simp add: shutdown_inv_def)
qed

lemma shutdown_inv_foldl: "shutdown_inv n \<sigma> \<Longrightarrow> shutdown_inv n (foldl step \<sigma> sched)"
  by (induction sched arbitrary: \<sigma>) (simp_all add: shutdown_inv_step)

lemma shutdown_inv_run: "shutdown_inv n (run sched (start n runFreq))"
  unfolding run_def by (rule shutdown_inv_foldl) (rule shutdown_inv_start)


lemma won_le_one: "shutdown_inv n \<sigma> \<Longrightarrow> length (filter won (callers \<sigma>)) \<le> 1"
  by (cases "mRunning (engine \<sigma>)") (auto simp: shutdown_inv_def none_won)

lemma notified_le_won: "length (filter notified xs) \<le> length (filter won xs)"
proof (induction xs)
  case (Cons p xs)
  then show ?case by (cases p) auto
qed simp

lemma joined_le_won: "length (filter (\<lambda>p. p = AtEnd True) xs) \<le> length (filter won xs)"
proof (induction xs)
  case (Cons p xs)
  then show ?case by (cases p) auto
qed simp

lemma all_returned_counts:
  "list_all returned xs \<Longrightarrow>
     filter notified xs = filter won xs \<and> filter (\<lambda>p. p = AtEnd True) xs = filter won xs"
proof (induction xs)
  case (Cons p xs)
  then show ?case by (cases p) auto
qed simp

text \<open>
  C4, as amended. Whatever the number of \<open>shutdown\<close> calls and however the scheduler
  interleaves them with each other and with the background thread: at most one call wins
  the compare-and-swap, and the notification and the join happen at most once; when all
  calls have returned, each has happened exactly once and the background thread has
  returned. The call that ran the stop sequence returns only after the background thread
  has returned, and its \<open>join()\<close> does return once the thread has tested the flag. A call
  that finds the flag cleared returns at once and leaves the engine as it is, whether or
  not the background thread has returned by then.
\<close>

theorem shutdown_runs_stop_sequence_once:
  "length (filter won (callers (run sched (start n runFreq)))) \<le> 1
   \<and> count_list (trace (engine (run sched (start n runFreq)))) NotifyOne \<le> 1
   \<and> count_list (trace (engine (run sched (start n runFreq)))) Join \<le> 1
   \<and> (0 < n \<and> list_all returned (callers (run sched (start n runFreq))) \<longrightarrow>
        count_list (trace (engine (run sched (start n runFreq)))) NotifyOne = 1
        \<and> count_list (trace (engine (run sched (start n runFreq)))) Join = 1
        \<and> handlerExited (run sched (start n runFreq)))
   \<and> (AtEnd True \<in> set (callers (run sched (start n runFreq))) \<longrightarrow>
        handlerExited (run sched (start n runFreq)))
   \<and> (i < n \<and> callers (run sched (start n runFreq)) ! i = AtJoin \<longrightarrow>
        callers (run (sched @ [HandlerTest, Caller i]) (start n runFreq)) ! i = AtEnd True)
   \<and> (i < n \<and> callers (run sched (start n runFreq)) ! i = AtCompareExchange
        \<and> \<not> mRunning (engine (run sched (start n runFreq))) \<longrightarrow>
        step (run sched (start n runFreq)) (Caller i) =
          (run sched (start n runFreq))
            \<lparr>callers := (callers (run sched (start n runFreq)))[i := AtEnd False]\<rparr>)"
proof -
  let ?\<sigma> = "run sched (start n runFreq)"
  have inv: "shutdown_inv n ?\<sigma>" by (rule shutdown_inv_run)
  have len: "length (callers ?\<sigma>) = n" using inv by (simp add: shutdown_inv_def)
  have once: "length (filter won (callers ?\<sigma>)) \<le> 1"
    using inv by (rule won_le_one)
  have notify: "count_list (trace (engine ?\<sigma>)) NotifyOne \<le> 1"
    using inv once notified_le_won[of "callers ?\<sigma>"] by (simp add: shutdown_inv_def)
  have join: "count_list (trace (engine ?\<sigma>)) Join \<le> 1"
    using inv once joined_le_won[of "callers ?\<sigma>"] by (simp add: shutdown_inv_def)
  have finished: "count_list (trace (engine ?\<sigma>)) NotifyOne = 1
      \<and> count_list (trace (engine ?\<sigma>)) Join = 1 \<and> handlerExited ?\<sigma>"
    if pos: "0 < n" and all: "list_all returned (callers ?\<sigma>)"
  proof -
    obtain p where p: "p \<in> set (callers ?\<sigma>)"
      using pos len by (cases "callers ?\<sigma>") auto
    then have "returned p" using all by (simp add: list_all_iff)
    then have "p \<noteq> AtCompareExchange" by auto
    then have off: "\<not> mRunning (engine ?\<sigma>)"
      using inv p by (auto simp: shutdown_inv_def)
    then have one: "length (filter won (callers ?\<sigma>)) = 1"
      using inv by (simp add: shutdown_inv_def)
    have eqs: "filter notified (callers ?\<sigma>) = filter won (callers ?\<sigma>)"
      "filter (\<lambda>p. p = AtEnd True) (callers ?\<sigma>) = filter won (callers ?\<sigma>)"
      using all_returned_counts[OF all] by simp_all
    have "filter (\<lambda>p. p = AtEnd True) (callers ?\<sigma>) \<noteq> []"
      using one eqs(2) by auto
    then have "AtEnd True \<in> set (callers ?\<sigma>)"
      by (auto simp: filter_empty_conv)
    then show ?thesis
      using inv one eqs by (simp add: shutdown_inv_def)
  qed
  have after_exit: "handlerExited ?\<sigma>" if "AtEnd True \<in> set (callers ?\<sigma>)"
    using inv that by (simp add: shutdown_inv_def)
  have joins: "callers (run (sched @ [HandlerTest, Caller i]) (start n runFreq)) ! i = AtEnd True"
    if "i < n" "callers ?\<sigma> ! i = AtJoin"
  proof -
    have "AtJoin \<in> set (callers ?\<sigma>)"
      using that len nth_mem[of i "callers ?\<sigma>"] by simp
    then have off: "\<not> mRunning (engine ?\<sigma>)"
      using inv by (auto simp: shutdown_inv_def)
    show ?thesis
      using that len off by (simp add: run_def)
  qed
  have noop: "step ?\<sigma> (Caller i) = ?\<sigma>\<lparr>callers := (callers ?\<sigma>)[i := AtEnd False]\<rparr>"
    if "i < n" "callers ?\<sigma> ! i = AtCompareExchange" "\<not> mRunning (engine ?\<sigma>)"
    using that len by simp
  from once notify join finished after_exit joins noop show ?thesis by blast
qed

theorem shutdown_runs_stop_sequence_once_witness:
  "callers (run [Caller 0, Caller 1, Caller 0, HandlerTest, Caller 0, Caller 2] (start 3 5000))
     = [AtEnd True, AtEnd False, AtEnd False]
   \<and> list_all returned
       (callers (run [Caller 0, Caller 1, Caller 0, HandlerTest, Caller 0, Caller 2] (start 3 5000)))
   \<and> trace (engine (run [Caller 0, Caller 1, Caller 0, HandlerTest, Caller 0, Caller 2] (start 3 5000)))
     = [Acquire NewTxnsMtx, NotifyOne, Release NewTxnsMtx, Join]
   \<and> handlerExited (run [Caller 0, Caller 1, Caller 0, HandlerTest, Caller 0, Caller 2] (start 3 5000))
   \<and> engine (run [Caller 0, Caller 1, Caller 0, HandlerTest, Caller 0, Caller 2] (start 3 5000))
     = shutdown (construct 5000)
   \<and> callers (run [Caller 0, Caller 1, Caller 0] (start 3 5000)) ! 0 = AtJoin
   \<and> callers (run [Caller 0, Caller 1, Caller 0] (start 3 5000)) ! 2 = AtCompareExchange
   \<and> \<not> mRunning (engine (run [Caller 0, Caller 1, Caller 0] (start 3 5000)))"
  using shutdown_runs_stop_sequence_once[of
      "[Caller 0, Caller 1, Caller 0, HandlerTest, Caller 0, Caller 2]" 3 5000 0]
    shutdown_runs_stop_sequence_once[of "[Caller 0, Caller 1, Caller 0]" 3 5000 2]
  by (simp add: run_def start_def construct_def emit_def shutdown_def shutdown_signal_def
      eval_nat_numeral)

text \<open>
  C4 as stated fails for concurrent calls: the second caller finds the flag already
  cleared and returns while the first is still before its \<open>join()\<close> and the background
  thread is still running.
\<close>

theorem shutdown_runs_stop_sequence_once_counterexample:
  "callers (run [Caller 0, Caller 1] (start 2 5000)) ! 1 = AtEnd False
   \<and> \<not> handlerExited (run [Caller 0, Caller 1] (start 2 5000))"
  by (simp add: run_def start_def construct_def eval_nat_numeral)

end
